theory Spec2Isabelle
  imports Main "HOL-Library.Sublist" "HOL-Library.Code_Target_Nat"
begin

unbundle bit_operations_syntax

section \<open>Python strings\<close>

text \<open>
  A Python \<open>str\<close> is a sequence of Unicode code points, and \<open>len\<close> counts code points.
  The scraper replaces U+00B7 by U+2022, which lies outside any 8-bit character type, so a
  string is modelled as the list of its code points. \<open>asc\<close> embeds an ASCII literal.
\<close>

type_synonym pystr = "nat list"

definition asc :: "string \<Rightarrow> pystr" where
  "asc s = map of_char s"

text \<open>
  The characters for which \<open>str.isspace\<close> holds. \<open>str.strip()\<close> without argument and the
  regex class \<open>\s\<close> of a \<open>str\<close> pattern both use this predicate.
\<close>

definition is_space :: "nat \<Rightarrow> bool" where
  "is_space c \<longleftrightarrow>
     (9 \<le> c \<and> c \<le> 13) \<or> (28 \<le> c \<and> c \<le> 32) \<or> c = 133 \<or> c = 160 \<or> c = 5760 \<or>
     (8192 \<le> c \<and> c \<le> 8202) \<or> c = 8232 \<or> c = 8233 \<or> c = 8239 \<or> c = 8287 \<or> c = 12288"

definition lstrip :: "pystr \<Rightarrow> pystr" where
  "lstrip s = dropWhile is_space s"

definition rstrip :: "pystr \<Rightarrow> pystr" where
  "rstrip s = rev (dropWhile is_space (rev s))"

definition strip :: "pystr \<Rightarrow> pystr" where
  "strip s = rstrip (lstrip s)"

text \<open>\<open>s.replace(old, new)\<close> for a one-character \<open>old\<close>.\<close>

definition replace_char :: "nat \<Rightarrow> pystr \<Rightarrow> pystr \<Rightarrow> pystr" where
  "replace_char old new s = concat (map (\<lambda>c. if c = old then new else [c]) s)"

text \<open>\<open>s.split('\n')\<close> (never the empty list) and \<open>'\n'.join(ls)\<close>.\<close>

fun split_nl :: "pystr \<Rightarrow> pystr list" where
  "split_nl [] = [[]]"
| "split_nl (c # cs) =
     (if c = 10 then [] # split_nl cs
      else (case split_nl cs of [] \<Rightarrow> [[c]] | l # ls \<Rightarrow> (c # l) # ls))"

fun join_nl :: "pystr list \<Rightarrow> pystr" where
  "join_nl [] = []"
| "join_nl [l] = l"
| "join_nl (l # m # ls) = l @ 10 # join_nl (m # ls)"

text \<open>\<open>sub in s\<close> for strings: \<open>sub\<close> occurs in \<open>s\<close> as a contiguous block.\<close>

fun starts_with :: "pystr \<Rightarrow> pystr \<Rightarrow> bool" where
  "starts_with [] s = True"
| "starts_with (p # ps) [] = False"
| "starts_with (p # ps) (c # cs) = (p = c \<and> starts_with ps cs)"

fun contains :: "pystr \<Rightarrow> pystr \<Rightarrow> bool" where
  "contains sub [] = (sub = [])"
| "contains sub (c # cs) = (starts_with sub (c # cs) \<or> contains sub cs)"

section \<open>Text Normalizer: \<open>clean_text\<close>\<close>

text \<open>
  The three \<open>str.replace\<close> calls: U+00A0 becomes a space, U+00C2 is deleted, U+00B7 becomes
  U+2022.
\<close>

definition fix_artifacts :: "pystr \<Rightarrow> pystr" where
  "fix_artifacts t = replace_char 183 [8226] (replace_char 194 [] (replace_char 160 [32] t))"

text \<open>
  The pattern \<open>\[email\s*protected\]\<close> under \<open>re.I\<close>. A literal letter of the pattern
  matches a character whose simple lower case is that letter; for \<open>i\<close> the regex engine adds
  U+0131, and U+0130 lowers to \<open>i\<close>. No other character outside ASCII lowers to a letter of
  the pattern. \<open>\s*\<close> is greedy and the literal after it starts with a letter, so no
  backtracking into the white space can succeed.
\<close>

definition ci_match :: "nat \<Rightarrow> nat \<Rightarrow> bool" where
  "ci_match p c \<longleftrightarrow>
     c = p \<or> (97 \<le> p \<and> p \<le> 122 \<and> c + 32 = p) \<or> (p = 105 \<and> (c = 304 \<or> c = 305))"

fun match_lit :: "pystr \<Rightarrow> pystr \<Rightarrow> pystr option" where
  "match_lit [] s = Some s"
| "match_lit (p # ps) [] = None"
| "match_lit (p # ps) (c # cs) = (if ci_match p c then match_lit ps cs else None)"

definition match_placeholder :: "pystr \<Rightarrow> pystr option" where
  "match_placeholder s =
     (case match_lit (asc ''[email'') s of
        None \<Rightarrow> None
      | Some r \<Rightarrow> match_lit (asc ''protected]'') (dropWhile is_space r))"

definition placeholder_text :: pystr where
  "placeholder_text = asc ''[see original posting for email]''"

lemma match_lit_length:
  "match_lit ps s = Some r \<Longrightarrow> length r + length ps = length s"
  by (induction ps s rule: match_lit.induct) (auto split: if_splits)

lemma match_placeholder_length:
  assumes "match_placeholder s = Some r"
  shows "length r + 16 \<le> length s"
proof -
  from assms obtain r1 where r1: "match_lit (asc ''[email'') s = Some r1"
    and r2: "match_lit (asc ''protected]'') (dropWhile is_space r1) = Some r"
    by (auto simp: match_placeholder_def split: option.splits)
  have "length r1 + 6 = length s"
    using match_lit_length [OF r1] by (simp add: asc_def)
  moreover have "length r + 10 = length (dropWhile is_space r1)"
    using match_lit_length [OF r2] by (simp add: asc_def)
  moreover have "length (dropWhile is_space r1) \<le> length r1"
    by (rule length_dropWhile_le)
  ultimately show ?thesis by linarith
qed

text \<open>
  \<open>re.sub(pattern, replacement, text)\<close>: scan from the left; where the pattern matches,
  emit the replacement and go on after the match, otherwise keep the character.
\<close>

function sub_placeholder :: "pystr \<Rightarrow> pystr" where
  "sub_placeholder [] = []"
| "sub_placeholder (c # cs) =
     (case match_placeholder (c # cs) of
        Some r \<Rightarrow> placeholder_text @ sub_placeholder r
      | None \<Rightarrow> c # sub_placeholder cs)"
  by pat_completeness auto
termination
proof (relation "measure length")
  fix c cs r
  assume "match_placeholder (c # cs) = Some r"
  from match_placeholder_length [OF this]
  show "(r, c # cs) \<in> measure length" by simp
qed simp_all

text \<open>\<open>re.sub(r'[ \t]{2,}', ' ', text)\<close>: a maximal run of two or more blanks becomes one space.\<close>

definition is_blank :: "nat \<Rightarrow> bool" where
  "is_blank c \<longleftrightarrow> c = 32 \<or> c = 9"

function collapse_blanks :: "pystr \<Rightarrow> pystr" where
  "collapse_blanks [] = []"
| "collapse_blanks (c # cs) =
     (if 2 \<le> length (takeWhile is_blank (c # cs))
      then 32 # collapse_blanks (dropWhile is_blank cs)
      else c # collapse_blanks cs)"
  by pat_completeness auto
termination
  by (relation "measure length") (auto simp: less_Suc_eq_le length_dropWhile_le)

text \<open>\<open>re.sub(r'\n{3,}', '\n\n', text)\<close>: a maximal run of three or more newlines becomes two.\<close>

definition is_nl :: "nat \<Rightarrow> bool" where
  "is_nl c \<longleftrightarrow> c = 10"

function collapse_newlines :: "pystr \<Rightarrow> pystr" where
  "collapse_newlines [] = []"
| "collapse_newlines (c # cs) =
     (if 3 \<le> length (takeWhile is_nl (c # cs))
      then 10 # 10 # collapse_newlines (dropWhile is_nl cs)
      else c # collapse_newlines cs)"
  by pat_completeness auto
termination
  by (relation "measure length") (auto simp: less_Suc_eq_le length_dropWhile_le)

text \<open>The last line of \<open>clean_text\<close>: every line stripped, lines joined, the whole stripped.\<close>

definition strip_lines :: "pystr \<Rightarrow> pystr" where
  "strip_lines t = strip (join_nl (map strip (split_nl t)))"

definition clean_text :: "pystr \<Rightarrow> pystr" where
  "clean_text text =
     (if text = [] then []
      else strip_lines (collapse_newlines (collapse_blanks (sub_placeholder (fix_artifacts text)))))"

text \<open>
  Where the placeholder pattern matches: \<open>has_placeholder\<close> holds when it matches at some
  position, \<open>count_placeholders\<close> counts the matches that \<open>re.sub\<close> replaces.
\<close>

fun has_placeholder :: "pystr \<Rightarrow> bool" where
  "has_placeholder [] = False"
| "has_placeholder (c # cs) = (match_placeholder (c # cs) \<noteq> None \<or> has_placeholder cs)"

function count_placeholders :: "pystr \<Rightarrow> nat" where
  "count_placeholders [] = 0"
| "count_placeholders (c # cs) =
     (case match_placeholder (c # cs) of
        Some r \<Rightarrow> Suc (count_placeholders r)
      | None \<Rightarrow> count_placeholders cs)"
  by pat_completeness auto
termination
proof (relation "measure length")
  fix c cs r
  assume "match_placeholder (c # cs) = Some r"
  from match_placeholder_length [OF this]
  show "(r, c # cs) \<in> measure length" by simp
qed simp_all

text \<open>A text without the three characters that \<open>clean_text\<close> replaces first.\<close>

definition artifact_free :: "pystr \<Rightarrow> bool" where
  "artifact_free t \<longleftrightarrow> 160 \<notin> set t \<and> 194 \<notin> set t \<and> 183 \<notin> set t"

text \<open>
  A text is clean when it has none of the three characters and no placeholder. A breaker
  is a character that is no white space and that no position of the pattern matches.
\<close>

definition is_clean :: "pystr \<Rightarrow> bool" where
  "is_clean t \<longleftrightarrow> artifact_free t \<and> \<not> has_placeholder t"

definition breaker :: "nat \<Rightarrow> bool" where
  "breaker c \<longleftrightarrow>
     \<not> is_space c \<and> (\<forall>q \<in> set (asc ''[email'') \<union> set (asc ''protected]''). \<not> ci_match q c)"

section \<open>Unicode case mappings\<close>

text \<open>
  \<open>str.lower()\<close> and \<open>str.title()\<close> map an ASCII string letter by letter. On a string with
  a character outside ASCII they follow the Unicode character database, which is not part of
  the repository: that part is the parameter \<open>L\<close> (respectively \<open>T\<close>) of the functions
  below, and every theorem holds for each choice of it.
\<close>

definition is_ascii :: "pystr \<Rightarrow> bool" where
  "is_ascii s = list_all (\<lambda>c. c < 128) s"

definition is_upper :: "nat \<Rightarrow> bool" where
  "is_upper c \<longleftrightarrow> 65 \<le> c \<and> c \<le> 90"

definition is_lower :: "nat \<Rightarrow> bool" where
  "is_lower c \<longleftrightarrow> 97 \<le> c \<and> c \<le> 122"

definition ascii_lower :: "nat \<Rightarrow> nat" where
  "ascii_lower c = (if is_upper c then c + 32 else c)"

definition ascii_upper :: "nat \<Rightarrow> nat" where
  "ascii_upper c = (if is_lower c then c - 32 else c)"

definition py_lower :: "(pystr \<Rightarrow> pystr) \<Rightarrow> pystr \<Rightarrow> pystr" where
  "py_lower L s = (if is_ascii s then map ascii_lower s else L s)"

text \<open>\<open>title()\<close>: a letter after a cased character is lowered, any other letter is raised.\<close>

fun ascii_title :: "bool \<Rightarrow> pystr \<Rightarrow> pystr" where
  "ascii_title prev [] = []"
| "ascii_title prev (c # cs) =
     (if prev then ascii_lower c else ascii_upper c) # ascii_title (is_upper c \<or> is_lower c) cs"

definition py_title :: "(pystr \<Rightarrow> pystr) \<Rightarrow> pystr \<Rightarrow> pystr" where
  "py_title T s = (if is_ascii s then ascii_title False s else T s)"

section \<open>Location and country tables\<close>

text \<open>A \<open>dict\<close> literal iterates in the order it is written: the tables are association lists.\<close>

definition LOCATION_NAMES :: "(pystr \<times> pystr) list" where
  "LOCATION_NAMES =
    [(asc ''mogadishu'', asc ''Mogadishu''), (asc ''muqdisho'', asc ''Mogadishu''),
     (asc ''hargeisa'', asc ''Hargeisa''), (asc ''hargeysa'', asc ''Hargeisa''),
     (asc ''kismayo'', asc ''Kismayo''), (asc ''kismaayo'', asc ''Kismayo''),
     (asc ''baidoa'', asc ''Baidoa''), (asc ''baydhabo'', asc ''Baidoa''),
     (asc ''garowe'', asc ''Garowe''), (asc ''garoowe'', asc ''Garowe''),
     (asc ''bosaso'', asc ''Bosaso''), (asc ''boosaaso'', asc ''Bosaso''),
     (asc ''jowhar'', asc ''Jowhar''), (asc ''jawhar'', asc ''Jowhar''),
     (asc ''beledweyne'', asc ''Beledweyne''), (asc ''galkacayo'', asc ''Galkayo''),
     (asc ''galkayo'', asc ''Galkayo''), (asc ''berbera'', asc ''Berbera''),
     (asc ''burao'', asc ''Burao''), (asc ''burco'', asc ''Burao''),
     (asc ''beledhawa'', asc ''Beledhawa''), (asc ''sheekh'', asc ''Sheekh''),
     (asc ''jigjiga'', asc ''Jigjiga''), (asc ''nairobi'', asc ''Nairobi''),
     (asc ''djibouti'', asc ''Djibouti''), (asc ''somaliland'', asc ''Somaliland''),
     (asc ''puntland'', asc ''Puntland''), (asc ''somalia'', asc ''Somalia''),
     (asc ''somalia-and-somaliland'', asc ''Somalia & Somaliland''),
     (asc ''puntland-state-of-somalia'', asc ''Puntland, Somalia''),
     (asc ''mogadiscio'', asc ''Mogadishu'')]"

definition COUNTRY_MAP :: "(pystr \<times> pystr) list" where
  "COUNTRY_MAP =
    [(asc ''mogadishu'', asc ''Somalia''), (asc ''hargeisa'', asc ''Somalia''),
     (asc ''kismayo'', asc ''Somalia''), (asc ''baidoa'', asc ''Somalia''),
     (asc ''garowe'', asc ''Somalia''), (asc ''bosaso'', asc ''Somalia''),
     (asc ''jowhar'', asc ''Somalia''), (asc ''beledweyne'', asc ''Somalia''),
     (asc ''galkayo'', asc ''Somalia''), (asc ''berbera'', asc ''Somalia''),
     (asc ''burao'', asc ''Somalia''), (asc ''somaliland'', asc ''Somalia''),
     (asc ''puntland'', asc ''Somalia''), (asc ''somalia'', asc ''Somalia''),
     (asc ''nairobi'', asc ''Kenya''), (asc ''mombasa'', asc ''Kenya''),
     (asc ''kenya'', asc ''Kenya''), (asc ''kampala'', asc ''Uganda''),
     (asc ''djibouti'', asc ''Djibouti''), (asc ''jigjiga'', asc ''Ethiopia''),
     (asc ''addis ababa'', asc ''Ethiopia'')]"

definition prettify_location ::
  "(pystr \<Rightarrow> pystr) \<Rightarrow> (pystr \<Rightarrow> pystr) \<Rightarrow> pystr \<Rightarrow> pystr" where
  "prettify_location L T slug =
     (if slug = [] then []
      else (case map_of LOCATION_NAMES (strip (py_lower L slug)) of
              Some name \<Rightarrow> name
            | None \<Rightarrow> py_title T (replace_char 45 [32] slug)))"

text \<open>The loop of \<open>detect_country\<close> over the table: the first keyword found wins.\<close>

fun country_loop :: "(pystr \<times> pystr) list \<Rightarrow> pystr \<Rightarrow> pystr" where
  "country_loop [] loc_lower = asc ''Somalia''"
| "country_loop ((kw, country) # rest) loc_lower =
     (if contains kw loc_lower then country else country_loop rest loc_lower)"

definition detect_country :: "(pystr \<Rightarrow> pystr) \<Rightarrow> pystr \<Rightarrow> pystr" where
  "detect_country L location =
     (if location = [] then asc ''Somalia''
      else country_loop COUNTRY_MAP (py_lower L location))"

section \<open>Obfuscation Resolver: \<open>decode_cf_email\<close>\<close>

datatype py_error = ValueError | IndexError | TypeError | AttributeError | OverflowError

text \<open>
  \<open>int(s, 16)\<close>. The interpreter first maps, in a string that is not pure ASCII, every
  white-space character from U+007F on to a space and every decimal digit from U+007F on to
  its ASCII digit (the digit values are the parameter \<open>D\<close>, from the Unicode database); then
  it skips the white space \<open>\t \n \v \f \r\<close> and space at both ends, reads an optional sign,
  an optional \<open>0x\<close> prefix and digits that single underscores may separate.
  The result is \<open>None\<close> where \<open>int\<close> raises \<open>ValueError\<close>.
\<close>

definition int_space :: "nat \<Rightarrow> bool" where
  "int_space c \<longleftrightarrow> (9 \<le> c \<and> c \<le> 13) \<or> c = 32 \<or> (127 \<le> c \<and> is_space c)"

definition digit16 :: "(nat \<Rightarrow> nat option) \<Rightarrow> nat \<Rightarrow> nat option" where
  "digit16 D c =
     (if 48 \<le> c \<and> c \<le> 57 then Some (c - 48)
      else if 97 \<le> c \<and> c \<le> 102 then Some (c - 87)
      else if 65 \<le> c \<and> c \<le> 70 then Some (c - 55)
      else if 127 \<le> c \<and> \<not> is_space c then
        (case D c of Some d \<Rightarrow> if d < 10 then Some d else None | None \<Rightarrow> None)
      else None)"

text \<open>
  The digits after sign and prefix: \<open>acc\<close> is the value so far, \<open>after_digit\<close> tells
  whether the previous character was a digit (an underscore may only follow a digit and
  must be followed by one).
\<close>

fun int_digits :: "(nat \<Rightarrow> nat option) \<Rightarrow> nat \<Rightarrow> bool \<Rightarrow> pystr \<Rightarrow> nat option" where
  "int_digits D acc after_digit [] = (if after_digit then Some acc else None)"
| "int_digits D acc after_digit (c # cs) =
     (if c = 95 then (if after_digit then int_digits D acc False cs else None)
      else (case digit16 D c of
              None \<Rightarrow> None
            | Some d \<Rightarrow> int_digits D (16 * acc + d) True cs))"

fun int_prefix :: "(nat \<Rightarrow> nat option) \<Rightarrow> pystr \<Rightarrow> nat option" where
  "int_prefix D (a # b # cs) =
     (if a = 48 \<and> (b = 120 \<or> b = 88)
      then (case cs of
              [] \<Rightarrow> None
            | c # cs' \<Rightarrow> if c = 95 then int_digits D 0 False cs' else int_digits D 0 False cs)
      else int_digits D 0 False (a # b # cs))"
| "int_prefix D cs = int_digits D 0 False cs"

definition py_int16 :: "(nat \<Rightarrow> nat option) \<Rightarrow> pystr \<Rightarrow> int option" where
  "py_int16 D s =
     (case rev (dropWhile int_space (rev (dropWhile int_space s))) of
        [] \<Rightarrow> None
      | c # cs \<Rightarrow>
          if c = 43 then map_option int (int_prefix D cs)
          else if c = 45 then map_option (\<lambda>n. - int n) (int_prefix D cs)
          else map_option int (int_prefix D (c # cs)))"

text \<open>
  \<open>chr(v)\<close>: \<open>OverflowError\<close> when \<open>v\<close> does not fit a C \<open>int\<close>, \<open>ValueError\<close> when it is
  not a code point.
\<close>

definition py_chr :: "int \<Rightarrow> py_error + nat" where
  "py_chr v =
     (if v < - (2 ^ 31) \<or> 2 ^ 31 \<le> v then Inl OverflowError
      else if v < 0 \<or> 1114111 < v then Inl ValueError
      else Inr (nat v))"

text \<open>The slices \<open>encoded[i:i+2]\<close> for \<open>i\<close> in \<open>range(0, len(encoded), 2)\<close>.\<close>

fun groups2 :: "pystr \<Rightarrow> pystr list" where
  "groups2 [] = []"
| "groups2 [a] = [[a]]"
| "groups2 (a # b # cs) = [a, b] # groups2 cs"

text \<open>The generator inside \<open>''.join\<close>: it stops at the first group that raises.\<close>

fun decode_chars :: "(nat \<Rightarrow> nat option) \<Rightarrow> int \<Rightarrow> pystr list \<Rightarrow> py_error + pystr" where
  "decode_chars D key [] = Inr []"
| "decode_chars D key (g # gs) =
     (case py_int16 D g of
        None \<Rightarrow> Inl ValueError
      | Some v \<Rightarrow>
          (case py_chr (v XOR key) of
             Inl e \<Rightarrow> Inl e
           | Inr c \<Rightarrow>
               (case decode_chars D key gs of
                  Inl e \<Rightarrow> Inl e
                | Inr cs \<Rightarrow> Inr (c # cs))))"

text \<open>The body of the \<open>try\<close> block.\<close>

definition decode_cf_email_try :: "(nat \<Rightarrow> nat option) \<Rightarrow> pystr \<Rightarrow> py_error + pystr" where
  "decode_cf_email_try D encoded =
     (case py_int16 D (take 2 encoded) of
        None \<Rightarrow> Inl ValueError
      | Some key \<Rightarrow> decode_chars D key (groups2 (drop 2 encoded)))"

text \<open>\<open>except (ValueError, IndexError): return ''\<close>; any other exception propagates.\<close>

definition decode_cf_email :: "(nat \<Rightarrow> nat option) \<Rightarrow> pystr \<Rightarrow> py_error + pystr" where
  "decode_cf_email D encoded =
     (case decode_cf_email_try D encoded of
        Inl e \<Rightarrow> if e = ValueError \<or> e = IndexError then Inr [] else Inl e
      | Inr s \<Rightarrow> Inr s)"

text \<open>
  The characters that \<open>int(s, 16)\<close> can read in a string of one or two characters: a digit,
  white space, a sign. \<open>is_hex\<close> holds of the ASCII hex digits.
\<close>

definition int16_char :: "(nat \<Rightarrow> nat option) \<Rightarrow> nat \<Rightarrow> bool" where
  "int16_char D c \<longleftrightarrow> digit16 D c \<noteq> None \<or> int_space c \<or> c = 43 \<or> c = 45"

definition is_hex :: "nat \<Rightarrow> bool" where
  "is_hex c \<longleftrightarrow> (48 \<le> c \<and> c \<le> 57) \<or> (97 \<le> c \<and> c \<le> 102) \<or> (65 \<le> c \<and> c \<le> 70)"

section \<open>Seen-Set Tracker\<close>

text \<open>
  The tracker holds the path of its store and the dictionary \<open>seen\<close> from a job identifier to
  a time stamp. \<open>job_uid\<close> is the hex digest of the MD5 hash of the URL; the hash function
  comes from the standard library and is the parameter \<open>md5\<close>.
\<close>

record tracker =
  filepath :: pystr
  seen :: "pystr \<rightharpoonup> pystr"

definition job_uid :: "(pystr \<Rightarrow> pystr) \<Rightarrow> pystr \<Rightarrow> pystr" where
  "job_uid md5 url = md5 url"

definition is_seen :: "(pystr \<Rightarrow> pystr) \<Rightarrow> tracker \<Rightarrow> pystr \<Rightarrow> bool" where
  "is_seen md5 tr url \<longleftrightarrow> seen tr (job_uid md5 url) \<noteq> None"

definition mark_seen :: "(pystr \<Rightarrow> pystr) \<Rightarrow> pystr \<Rightarrow> tracker \<Rightarrow> pystr \<Rightarrow> tracker" where
  "mark_seen md5 now tr url = tr\<lparr>seen := (seen tr)(job_uid md5 url \<mapsto> now)\<rparr>"

text \<open>
  The list comprehension of \<open>filter_new\<close>, as the loop it abbreviates: \<open>new\<close> collects, in
  order, the URLs that pass the test.
\<close>

fun filter_new_loop ::
  "(pystr \<Rightarrow> pystr) \<Rightarrow> tracker \<Rightarrow> pystr list \<Rightarrow> pystr list \<Rightarrow> pystr list" where
  "filter_new_loop md5 tr [] new = new"
| "filter_new_loop md5 tr (u # urls) new =
     filter_new_loop md5 tr urls (if \<not> is_seen md5 tr u then new @ [u] else new)"

definition filter_new :: "(pystr \<Rightarrow> pystr) \<Rightarrow> tracker \<Rightarrow> pystr list \<Rightarrow> pystr list" where
  "filter_new md5 tr urls = filter_new_loop md5 tr urls []"

section \<open>The job record\<close>

text \<open>
  \<open>scrape_job_page\<close> builds a dictionary with a fixed set of keys: a record. All values are
  strings; the empty string is the unset value.
\<close>

record job =
  title :: pystr
  organization :: pystr
  location :: pystr
  country :: pystr
  description :: pystr
  url :: pystr
  deadline :: pystr
  datePosted :: pystr
  sector :: pystr
  source :: pystr
  type :: pystr
  experience :: pystr
  howToApply :: pystr
  qualifications :: pystr
  responsibilities :: pystr

text \<open>The keys that the label tables write to, with \<open>job[field]\<close> and \<open>job[field] = v\<close>.\<close>

datatype field = DatePosted | Deadline | Sector | Location | JobType | Experience

fun get_field :: "field \<Rightarrow> job \<Rightarrow> pystr" where
  "get_field DatePosted j = datePosted j"
| "get_field Deadline j = deadline j"
| "get_field Sector j = sector j"
| "get_field Location j = location j"
| "get_field JobType j = type j"
| "get_field Experience j = experience j"

fun set_field :: "field \<Rightarrow> pystr \<Rightarrow> job \<Rightarrow> job" where
  "set_field DatePosted v j = j\<lparr>datePosted := v\<rparr>"
| "set_field Deadline v j = j\<lparr>deadline := v\<rparr>"
| "set_field Sector v j = j\<lparr>sector := v\<rparr>"
| "set_field Location v j = j\<lparr>location := v\<rparr>"
| "set_field JobType v j = j\<lparr>type := v\<rparr>"
| "set_field Experience v j = j\<lparr>experience := v\<rparr>"

section \<open>Page elements\<close>

text \<open>
  What the scraper reads of an element that follows a heading: the tag name, the text that
  \<open>get_text()\<close> returns, and the \<open>href\<close> of the first link with an \<open>href\<close> inside it.
\<close>

record element =
  el_name :: pystr
  el_text :: pystr
  el_href :: "pystr option"

text \<open>A heading with its text and the elements that \<open>find_next_sibling\<close> walks through.\<close>

record heading =
  h_text :: pystr
  h_siblings :: "element list"

section \<open>Section Extractor: \<open>collect_section\<close>\<close>

definition social_names :: "pystr list" where
  "social_names =
     [asc ''facebook'', asc ''twitter'', asc ''linkedin'', asc ''whatsapp'', asc ''telegram'',
      asc ''print'', asc ''twitter(x)'', asc ''open_in_new'']"

text \<open>The \<open>while\<close> loop: the texts appended to \<open>content\<close>.\<close>

fun section_content :: "(pystr \<Rightarrow> pystr) \<Rightarrow> element list \<Rightarrow> pystr list" where
  "section_content L [] = []"
| "section_content L (el # els) =
     (if el_name el = asc ''h1'' \<or> el_name el = asc ''h2'' then []
      else if contains (asc ''Similar Jobs'') (strip (el_text el)) \<or> el_name el = asc ''footer''
        then []
      else if py_lower L (strip (el_text el)) \<in> set social_names then section_content L els
      else if strip (el_text el) \<noteq> [] then strip (el_text el) # section_content L els
      else section_content L els)"

definition collect_section :: "(pystr \<Rightarrow> pystr) \<Rightarrow> heading \<Rightarrow> pystr" where
  "collect_section L h2 =
     clean_text (take 2000 (strip (join_nl (section_content L (h_siblings h2)))))"

section \<open>Label/Value Grid Parser: \<open>parse_job_details_section\<close>\<close>

text \<open>The first \<open>while\<close> loop: the non-empty stripped lines of the siblings' texts.\<close>

fun details_lines :: "element list \<Rightarrow> pystr list" where
  "details_lines [] = []"
| "details_lines (el # els) =
     (if el_name el = asc ''h1'' \<or> el_name el = asc ''h2'' then []
      else if el_name el = asc ''footer'' \<or> contains (asc ''Similar Jobs'') (el_text el) then []
      else (if strip (el_text el) \<noteq> []
            then filter (\<lambda>l. l \<noteq> []) (map strip (split_nl (strip (el_text el))))
            else []) @ details_lines els)"

definition grid_label_map :: "(pystr \<times> field) list" where
  "grid_label_map =
     [(asc ''posted date'', DatePosted), (asc ''posted'', DatePosted),
      (asc ''expire date'', Deadline), (asc ''expire'', Deadline),
      (asc ''deadline'', Deadline), (asc ''closing date'', Deadline),
      (asc ''category'', Sector), (asc ''location'', Location),
      (asc ''job type'', JobType), (asc ''employment type'', JobType),
      (asc ''experience level'', Experience), (asc ''experience'', Experience)]"

text \<open>
  The inner \<open>for\<close> loop over the label table, up to its \<open>break\<close>: the field of the first
  label that the line equals, with or without a trailing colon.
\<close>

fun grid_label :: "(pystr \<times> field) list \<Rightarrow> pystr \<Rightarrow> field option" where
  "grid_label [] line_lower = None"
| "grid_label ((label_key, field_name) # rest) line_lower =
     (if line_lower = label_key \<or> line_lower = label_key @ [58] then Some field_name
      else grid_label rest line_lower)"

text \<open>One round of the outer loop, for the index \<open>i\<close>.\<close>

definition grid_step ::
  "(pystr \<Rightarrow> pystr) \<Rightarrow> (pystr \<Rightarrow> pystr) \<Rightarrow> pystr list \<Rightarrow> nat \<Rightarrow> job \<Rightarrow> job" where
  "grid_step L T lines i j =
     (case grid_label grid_label_map (strip (py_lower L (lines ! i))) of
        None \<Rightarrow> j
      | Some field_name \<Rightarrow>
          if 0 < i then
            (if strip (lines ! (i - 1)) \<noteq> [] \<and> length (strip (lines ! (i - 1))) < 100
             then (if field_name = Location
                   then set_field field_name (prettify_location L T (strip (lines ! (i - 1)))) j
                   else set_field field_name (strip (lines ! (i - 1))) j)
             else j)
          else j)"

definition grid_scan ::
  "(pystr \<Rightarrow> pystr) \<Rightarrow> (pystr \<Rightarrow> pystr) \<Rightarrow> pystr list \<Rightarrow> job \<Rightarrow> job" where
  "grid_scan L T lines j = fold (grid_step L T lines) [0..<length lines] j"

definition parse_job_details_section ::
  "(pystr \<Rightarrow> pystr) \<Rightarrow> (pystr \<Rightarrow> pystr) \<Rightarrow> heading \<Rightarrow> job \<Rightarrow> job" where
  "parse_job_details_section L T h2 j = grid_scan L T (details_lines (h_siblings h2)) j"

section \<open>The parsed page\<close>

text \<open>
  A value that the scraper expects to be a JSON object: the key is missing, the value is
  not an object (\<open>.get\<close> on it raises \<open>AttributeError\<close>), or it is an object.
\<close>

datatype 'a jnode = Missing | NotADict | Dict 'a

text \<open>
  The keys that the scraper reads of one object of a JSON-LD block. A key holds a string
  or is missing (\<open>None\<close>). \<open>ld_hiringOrganization\<close> carries the organization's \<open>name\<close>,
  \<open>ld_jobLocation\<close> the \<open>address\<close> with its \<open>addressLocality\<close>.
\<close>

record ld_item =
  ld_type :: "pystr option"
  ld_title :: "pystr option"
  ld_datePosted :: "pystr option"
  ld_validThrough :: "pystr option"
  ld_hiringOrganization :: "pystr option jnode"
  ld_jobLocation :: "pystr option jnode jnode"
  ld_employmentType :: "pystr option"

text \<open>An element of \<open>items\<close>: a JSON object, or a value without \<open>.get\<close>.\<close>

datatype ld_entry = NotAnObject | Object ld_item

text \<open>
  A \<open>script\<close> tag of type \<open>application/ld+json\<close>: it has no string (\<open>json.loads(None)\<close>
  raises \<open>TypeError\<close>), its string is not JSON, or it parses to the list \<open>items\<close>.
\<close>

datatype ld_script = NoString | BadJson | Parsed "ld_entry list"

text \<open>
  What \<open>scrape_job_page\<close> reads of a fetched page: the results of its queries on the
  parsed document, and the first group of each regex search on the raw HTML
  (\<open>rx_organization\<close>, \<open>rx_datePosted\<close>, \<open>rx_validThrough\<close>) and on the body text
  (\<open>rx_deadline\<close>), \<open>None\<close> when the search finds nothing.
\<close>

record document =
  doc_url :: pystr
  ld_scripts :: "ld_script list"
  rx_organization :: "pystr option"
  rx_datePosted :: "pystr option"
  rx_validThrough :: "pystr option"
  h1 :: "pystr option"
  company_links :: "pystr list"
  h2s :: "heading list"
  body_text :: pystr
  rx_deadline :: "pystr option"

section \<open>Field Resolver Chain and Record Assembler: \<open>scrape_job_page\<close>\<close>

text \<open>
  \<open>location_from_url\<close>: \<open>re.search(r'/jobs/([^/]+)/', url)\<close>, the segment after the first
  \<open>/jobs/\<close> that a non-empty segment and a slash follow.
\<close>

fun url_segment :: "pystr \<Rightarrow> pystr option" where
  "url_segment [] = None"
| "url_segment (c # cs) =
     (if starts_with (asc ''/jobs/'') (c # cs)
         \<and> takeWhile (\<lambda>x. x \<noteq> 47) (drop 6 (c # cs)) \<noteq> []
         \<and> dropWhile (\<lambda>x. x \<noteq> 47) (drop 6 (c # cs)) \<noteq> []
      then Some (takeWhile (\<lambda>x. x \<noteq> 47) (drop 6 (c # cs)))
      else url_segment cs)"

definition location_from_url ::
  "(pystr \<Rightarrow> pystr) \<Rightarrow> (pystr \<Rightarrow> pystr) \<Rightarrow> pystr \<Rightarrow> pystr" where
  "location_from_url L T u =
     (case url_segment u of Some slug \<Rightarrow> prettify_location L T slug | None \<Rightarrow> [])"

definition new_job :: "(pystr \<Rightarrow> pystr) \<Rightarrow> (pystr \<Rightarrow> pystr) \<Rightarrow> pystr \<Rightarrow> job" where
  "new_job L T u =
     \<lparr>title = [], organization = [], location = location_from_url L T u, country = [],
      description = [], url = u, deadline = [], datePosted = [], sector = [],
      source = asc ''somalijobs'', type = [], experience = [], howToApply = [],
      qualifications = [], responsibilities = []\<rparr>"

text \<open>\<open>item.get(key, '') or old\<close>.\<close>

definition get_or :: "pystr option \<Rightarrow> pystr \<Rightarrow> pystr" where
  "get_or v old = (case v of Some x \<Rightarrow> if x \<noteq> [] then x else old | None \<Rightarrow> old)"

text \<open>
  Method 1, the body of the loop over \<open>items\<close>. The result is the job as the statements
  left it and whether \<open>AttributeError\<close> was raised on the way.
\<close>

definition ld_item_step ::
  "(pystr \<Rightarrow> pystr) \<Rightarrow> (pystr \<Rightarrow> pystr) \<Rightarrow> ld_entry \<Rightarrow> job \<Rightarrow> job \<times> bool" where
  "ld_item_step L T entry j =
     (case entry of
        NotAnObject \<Rightarrow> (j, True)
      | Object item \<Rightarrow>
          if ld_type item = Some (asc ''JobPosting'') \<or> ld_datePosted item \<noteq> None then
            (let j1 = j\<lparr>title := get_or (ld_title item) (title j),
                        datePosted := get_or (ld_datePosted item) (datePosted j),
                        deadline := get_or (ld_validThrough item) (deadline j)\<rparr> in
             case ld_hiringOrganization item of
               NotADict \<Rightarrow> (j1, True)
             | org \<Rightarrow>
                 (let j2 = (case org of
                              Dict (Some name) \<Rightarrow> if name \<noteq> [] then j1\<lparr>organization := name\<rparr> else j1
                            | _ \<Rightarrow> j1) in
                  case ld_jobLocation item of
                    NotADict \<Rightarrow> (j2, True)
                  | Dict NotADict \<Rightarrow> (j2, True)
                  | loc \<Rightarrow>
                      (let loc_name = (case loc of Dict (Dict (Some l)) \<Rightarrow> l | _ \<Rightarrow> []);
                           j3 = (if loc_name \<noteq> []
                                 then j2\<lparr>location := prettify_location L T loc_name\<rparr> else j2);
                           emp_type = (case ld_employmentType item of Some e \<Rightarrow> e | None \<Rightarrow> [])
                       in (if emp_type \<noteq> [] \<and> emp_type \<noteq> asc ''Organization''
                           then j3\<lparr>type := emp_type\<rparr> else j3, False))))
          else (j, False))"

text \<open>The loop over \<open>items\<close> inside \<open>try\<close>: \<open>AttributeError\<close> ends it, and \<open>except\<close> passes.\<close>

fun ld_items_loop ::
  "(pystr \<Rightarrow> pystr) \<Rightarrow> (pystr \<Rightarrow> pystr) \<Rightarrow> ld_entry list \<Rightarrow> job \<Rightarrow> job" where
  "ld_items_loop L T [] j = j"
| "ld_items_loop L T (entry # entries) j =
     (case ld_item_step L T entry j of
        (j', True) \<Rightarrow> j'
      | (j', False) \<Rightarrow> ld_items_loop L T entries j')"

text \<open>The loop over the scripts; \<open>TypeError\<close> is not caught.\<close>

fun ld_scripts_loop ::
  "(pystr \<Rightarrow> pystr) \<Rightarrow> (pystr \<Rightarrow> pystr) \<Rightarrow> ld_script list \<Rightarrow> job \<Rightarrow> py_error + job" where
  "ld_scripts_loop L T [] j = Inr j"
| "ld_scripts_loop L T (NoString # scripts) j = Inl TypeError"
| "ld_scripts_loop L T (BadJson # scripts) j = ld_scripts_loop L T scripts j"
| "ld_scripts_loop L T (Parsed items # scripts) j =
     ld_scripts_loop L T scripts (ld_items_loop L T items j)"

text \<open>Method 2: the regex results on the raw HTML, for fields still empty.\<close>

definition raw_html_step :: "document \<Rightarrow> job \<Rightarrow> job" where
  "raw_html_step doc j =
     (let j1 = (if organization j = [] then
                  (case rx_organization doc of Some g \<Rightarrow> j\<lparr>organization := g\<rparr> | None \<Rightarrow> j)
                else j);
          j2 = (if datePosted j1 = [] then
                  (case rx_datePosted doc of Some g \<Rightarrow> j1\<lparr>datePosted := g\<rparr> | None \<Rightarrow> j1)
                else j1)
      in (if deadline j2 = [] then
            (case rx_validThrough doc of Some g \<Rightarrow> j2\<lparr>deadline := g\<rparr> | None \<Rightarrow> j2)
          else j2))"

text \<open>Method 3: the first \<open>h1\<close>.\<close>

definition h1_step :: "document \<Rightarrow> job \<Rightarrow> job" where
  "h1_step doc j =
     (case h1 doc of Some t \<Rightarrow> j\<lparr>title := clean_text (strip t)\<rparr> | None \<Rightarrow> j)"

text \<open>Method 4: the first company link with a usable text.\<close>

fun company_loop :: "pystr list \<Rightarrow> job \<Rightarrow> job" where
  "company_loop [] j = j"
| "company_loop (t # ts) j =
     (if strip t \<noteq> [] \<and> 1 < length (strip t) \<and> \<not> contains (asc ''See company'') (strip t)
      then j\<lparr>organization := strip t\<rparr>
      else company_loop ts j)"

definition company_step :: "document \<Rightarrow> job \<Rightarrow> job" where
  "company_step doc j = (if organization j = [] then company_loop (company_links doc) j else j)"

text \<open>Method 5, the body of the loop over the \<open>h2\<close> headings.\<close>

definition apply_link :: "heading \<Rightarrow> pystr" where
  "apply_link h2 =
     (case h_siblings h2 of
        [] \<Rightarrow> []
      | next_el # _ \<Rightarrow>
          (case el_href next_el of
             None \<Rightarrow> []
           | Some href \<Rightarrow>
               if \<not> contains (asc ''somalijobs.com'') href
               then [10, 10] @ asc ''Apply at: '' @ href else []))"

definition h2_step ::
  "(pystr \<Rightarrow> pystr) \<Rightarrow> (pystr \<Rightarrow> pystr) \<Rightarrow> heading \<Rightarrow> job \<Rightarrow> job" where
  "h2_step L T h2 j =
     (let heading = py_lower L (strip (h_text h2));
          content = collect_section L h2
      in if contains (asc ''job description'') heading \<or> heading = asc ''description''
           then j\<lparr>description := content\<rparr>
         else if contains (asc ''skills'') heading \<or> contains (asc ''qualifications'') heading
                 \<or> contains (asc ''requirements'') heading
           then j\<lparr>qualifications := content\<rparr>
         else if contains (asc ''responsibilities'') heading \<or> contains (asc ''duties'') heading
           then j\<lparr>responsibilities := content\<rparr>
         else if contains (asc ''how to apply'') heading \<or> contains (asc ''application'') heading
           then j\<lparr>howToApply := content @ apply_link h2\<rparr>
         else if contains (asc ''job details'') heading
           then parse_job_details_section L T h2 j
         else j)"

definition h2_loop ::
  "(pystr \<Rightarrow> pystr) \<Rightarrow> (pystr \<Rightarrow> pystr) \<Rightarrow> heading list \<Rightarrow> job \<Rightarrow> job" where
  "h2_loop L T hs j = fold (h2_step L T) hs j"

text \<open>The fallback over the lines of the body text: a value above its label.\<close>

definition body_label_map :: "(pystr \<times> field) list" where
  "body_label_map =
     [(asc ''posted date'', DatePosted), (asc ''expire date'', Deadline),
      (asc ''deadline'', Deadline), (asc ''closing date'', Deadline),
      (asc ''category'', Sector), (asc ''location'', Location),
      (asc ''job type'', JobType), (asc ''experience level'', Experience)]"

fun body_label :: "(pystr \<times> field) list \<Rightarrow> pystr \<Rightarrow> field option" where
  "body_label [] line_lower = None"
| "body_label ((label, field_name) # rest) line_lower =
     (if line_lower = label then Some field_name else body_label rest line_lower)"

definition body_lines :: "pystr \<Rightarrow> pystr list" where
  "body_lines text = filter (\<lambda>l. l \<noteq> []) (map strip (split_nl text))"

definition body_step ::
  "(pystr \<Rightarrow> pystr) \<Rightarrow> (pystr \<Rightarrow> pystr) \<Rightarrow> pystr list \<Rightarrow> nat \<Rightarrow> job \<Rightarrow> job" where
  "body_step L T lines i j =
     (case body_label body_label_map (py_lower L (lines ! i)) of
        None \<Rightarrow> j
      | Some field_name \<Rightarrow>
          if lines ! (i - 1) \<noteq> [] \<and> length (lines ! (i - 1)) < 100 \<and> get_field field_name j = []
          then (if field_name = Location
                then set_field field_name (prettify_location L T (lines ! (i - 1))) j
                else set_field field_name (lines ! (i - 1)) j)
          else j)"

definition body_scan ::
  "(pystr \<Rightarrow> pystr) \<Rightarrow> (pystr \<Rightarrow> pystr) \<Rightarrow> document \<Rightarrow> job \<Rightarrow> job" where
  "body_scan L T doc j =
     fold (body_step L T (body_lines (body_text doc))) [1..<length (body_lines (body_text doc))] j"

text \<open>The inline deadline fallback.\<close>

definition inline_deadline_step :: "document \<Rightarrow> job \<Rightarrow> job" where
  "inline_deadline_step doc j =
     (if deadline j = [] then
        (case rx_deadline doc of Some g \<Rightarrow> j\<lparr>deadline := strip g\<rparr> | None \<Rightarrow> j)
      else j)"

text \<open>The strategies after the structured data, in the order of the source.\<close>

definition fallback_chain ::
  "(pystr \<Rightarrow> pystr) \<Rightarrow> (pystr \<Rightarrow> pystr) \<Rightarrow> document \<Rightarrow> job \<Rightarrow> job" where
  "fallback_chain L T doc j =
     inline_deadline_step doc
       (body_scan L T doc
         (h2_loop L T (h2s doc)
           (company_step doc (h1_step doc (raw_html_step doc j)))))"

text \<open>
  The assembly at the end of \<open>scrape_job_page\<close>: the combined description, capped at 3000
  characters and cleaned; the default of \<open>type\<close>; the country; the cleaning of the text
  fields.
\<close>

definition full_desc :: "job \<Rightarrow> pystr" where
  "full_desc j =
     description j
     @ (if qualifications j \<noteq> []
        then [10, 10] @ asc ''=== Skills & Qualifications ==='' @ [10] @ qualifications j else [])
     @ (if responsibilities j \<noteq> []
        then [10, 10] @ asc ''=== Responsibilities ==='' @ [10] @ responsibilities j else [])"

definition assemble :: "(pystr \<Rightarrow> pystr) \<Rightarrow> job \<Rightarrow> job" where
  "assemble L j =
     (let j1 = j\<lparr>description := clean_text (take 3000 (strip (full_desc j)))\<rparr>;
          j2 = (if type j1 = [] \<or> type j1 = asc ''Organization''
                then j1\<lparr>type := asc ''Full Time''\<rparr> else j1);
          j3 = j2\<lparr>country := detect_country L (location j2)\<rparr>
      in j3\<lparr>title := clean_text (title j3),
             organization := clean_text (organization j3),
             description := clean_text (description j3),
             qualifications := clean_text (qualifications j3),
             responsibilities := clean_text (responsibilities j3),
             howToApply := clean_text (howToApply j3),
             sector := clean_text (sector j3),
             experience := clean_text (experience j3)\<rparr>)"

text \<open>
  \<open>scrape_job_page\<close> on a fetched page: the structured data, the fallbacks, the assembly.
  The result is \<open>Inl\<close> of the exception that leaves the function.
\<close>

definition scrape_job_page ::
  "(pystr \<Rightarrow> pystr) \<Rightarrow> (pystr \<Rightarrow> pystr) \<Rightarrow> document \<Rightarrow> py_error + job" where
  "scrape_job_page L T doc =
     (case ld_scripts_loop L T (ld_scripts doc) (new_job L T (doc_url doc)) of
        Inl e \<Rightarrow> Inl e
      | Inr j \<Rightarrow> Inr (assemble L (fallback_chain L T doc j)))"

text \<open>The three fields that make up the combined description, and that they are clean.\<close>

definition parts_clean :: "job \<Rightarrow> bool" where
  "parts_clean j \<longleftrightarrow>
     is_clean (description j) \<and> is_clean (qualifications j) \<and> is_clean (responsibilities j)"

definition parts :: "job \<Rightarrow> pystr \<times> pystr \<times> pystr" where
  "parts j = (description j, qualifications j, responsibilities j)"

section \<open>Where a page can supply the employment type\<close>

text \<open>
  \<open>usable_type\<close> is the test \<open>emp_type and emp_type != 'Organization'\<close> of method 1.
  A page supplies a type through its structured data when some object of some block has a
  usable employment type; through a grid when a line after one of its \<open>h2\<close> headings is a
  type label of the grid parser; through the body text when one of its lines is the type
  label of the body scan.
\<close>

definition usable_type :: "pystr option \<Rightarrow> bool" where
  "usable_type e \<longleftrightarrow> (case e of None \<Rightarrow> False | Some t \<Rightarrow> t \<noteq> [] \<and> t \<noteq> asc ''Organization'')"

definition ld_supplies_type :: "document \<Rightarrow> bool" where
  "ld_supplies_type doc \<longleftrightarrow>
     list_ex (\<lambda>s. case s of
                    Parsed items \<Rightarrow>
                      list_ex (\<lambda>e. case e of
                                     Object item \<Rightarrow> usable_type (ld_employmentType item)
                                   | NotAnObject \<Rightarrow> False) items
                  | _ \<Rightarrow> False)
       (ld_scripts doc)"

definition grid_has_type_label :: "(pystr \<Rightarrow> pystr) \<Rightarrow> document \<Rightarrow> bool" where
  "grid_has_type_label L doc \<longleftrightarrow>
     list_ex (\<lambda>h. list_ex (\<lambda>l. grid_label grid_label_map (strip (py_lower L l)) = Some JobType)
                     (details_lines (h_siblings h)))
       (h2s doc)"

definition body_has_type_label :: "(pystr \<Rightarrow> pystr) \<Rightarrow> document \<Rightarrow> bool" where
  "body_has_type_label L doc \<longleftrightarrow>
     list_ex (\<lambda>l. body_label body_label_map (py_lower L l) = Some JobType)
       (body_lines (body_text doc))"

section \<open>Example pages\<close>

text \<open>
  A job posting object as the board embeds it, with a given title and employment type; a page
  that carries it, with or without an \<open>h1\<close>, with given \<open>h2\<close> sections and body text; and a
  \<open>Job Details\<close> heading whose grid shows a deadline above its label.
\<close>

definition posting :: "pystr \<Rightarrow> pystr \<Rightarrow> ld_item" where
  "posting t emp =
     \<lparr>ld_type = Some (asc ''JobPosting''), ld_title = Some t,
      ld_datePosted = Some (asc ''2025-01-01''), ld_validThrough = Some (asc ''2025-02-01''),
      ld_hiringOrganization = Dict (Some (asc ''Example Org'')),
      ld_jobLocation = Dict (Dict (Some (asc ''Hargeisa''))),
      ld_employmentType = Some emp\<rparr>"

definition page :: "ld_item \<Rightarrow> pystr option \<Rightarrow> heading list \<Rightarrow> pystr \<Rightarrow> document" where
  "page item heading1 headings2 body =
     \<lparr>doc_url = asc ''https://somalijobs.com/jobs/hargeisa/123/program-officer'',
      ld_scripts = [Parsed [Object item]],
      rx_organization = None, rx_datePosted = None, rx_validThrough = None,
      h1 = heading1, company_links = [], h2s = headings2, body_text = body,
      rx_deadline = None\<rparr>"

definition details_heading :: heading where
  "details_heading =
     \<lparr>h_text = asc ''Job Details'',
      h_siblings = [\<lparr>el_name = asc ''div'',
                     el_text = asc ''2025-03-15'' @ [10] @ asc ''Deadline'',
                     el_href = None\<rparr>]\<rparr>"

text \<open>A heading followed by one block of text.\<close>

definition text_section :: "pystr \<Rightarrow> pystr \<Rightarrow> heading" where
  "text_section name body =
     \<lparr>h_text = name,
      h_siblings = [\<lparr>el_name = asc ''div'', el_text = body, el_href = None\<rparr>]\<rparr>"

section \<open>Seen-Set Tracker: \<open>filter_new\<close>\<close>

lemma filter_new_loop_append:
  "filter_new_loop md5 tr urls new = new @ filter (\<lambda>u. \<not> is_seen md5 tr u) urls"
  by (induction urls arbitrary: new) simp_all

text \<open>
  Claim C7. For every list of URLs and every tracker, \<open>filter_new\<close> returns exactly the URLs
  of the input for which \<open>is_seen\<close> is false, each as often as it occurs and in the order of
  the input: the result is the input filtered by \<open>not is_seen\<close>, and a subsequence of it.
\<close>

theorem filter_new_exact:
  "filter_new md5 tr urls = filter (\<lambda>u. \<not> is_seen md5 tr u) urls
   \<and> subseq (filter_new md5 tr urls) urls"
  by (simp add: filter_new_def filter_new_loop_append)

section \<open>Country inference: \<open>detect_country\<close>\<close>

lemma country_loop_range:
  "country_loop tbl s \<in> insert (asc ''Somalia'') (snd ` set tbl)"
  by (induction tbl s rule: country_loop.induct) auto

lemma country_loop_no_keyword:
  "list_all (\<lambda>kw. \<not> contains kw s) (map fst tbl) \<Longrightarrow> country_loop tbl s = asc ''Somalia''"
  by (induction tbl s rule: country_loop.induct) auto

lemma COUNTRY_MAP_values: "[] \<notin> insert (asc ''Somalia'') (snd ` set COUNTRY_MAP)"
  by (simp add: COUNTRY_MAP_def asc_def)

text \<open>
  Claim C10 as stated fails: no keyword of \<open>COUNTRY_MAP\<close> occurs in \<open>Nairobi\<close> as a
  substring (the keywords are in lower case), and the result is \<open>Kenya\<close>, not the fallback.
\<close>

theorem capitalised_location_counterexample:
  "list_all (\<lambda>kw. \<not> contains kw (asc ''Nairobi'')) (map fst COUNTRY_MAP)
   \<and> detect_country id (asc ''Nairobi'') = asc ''Kenya''"
  by code_simp

text \<open>
  Claim C10, amended. \<open>detect_country\<close> is a total function whose result is never the empty
  string. On the empty location it returns \<open>Somalia\<close>, and so it does on every location
  whose lower-cased form, \<open>location.lower()\<close>, has no keyword of \<open>COUNTRY_MAP\<close> as a
  substring.
\<close>

theorem detect_country_fallback:
  "detect_country L loc \<noteq> []
   \<and> detect_country L [] = asc ''Somalia''
   \<and> (list_all (\<lambda>kw. \<not> contains kw (py_lower L loc)) (map fst COUNTRY_MAP)
        \<longrightarrow> detect_country L loc = asc ''Somalia'')"
proof -
  have "detect_country L loc \<in> insert (asc ''Somalia'') (snd ` set COUNTRY_MAP)"
    using country_loop_range [of COUNTRY_MAP "py_lower L loc"]
    by (simp add: detect_country_def)
  with COUNTRY_MAP_values have "detect_country L loc \<noteq> []" by metis
  moreover have "detect_country L [] = asc ''Somalia''"
    by (simp add: detect_country_def)
  ultimately show ?thesis
    by (simp add: detect_country_def country_loop_no_keyword)
qed

theorem detect_country_fallback_witness:
  "list_all (\<lambda>kw. \<not> contains kw (py_lower id (asc ''Paris''))) (map fst COUNTRY_MAP)
   \<and> detect_country id (asc ''Paris'') = asc ''Somalia''"
proof -
  have h: "list_all (\<lambda>kw. \<not> contains kw (py_lower id (asc ''Paris''))) (map fst COUNTRY_MAP)"
    by code_simp
  with detect_country_fallback [of id "asc ''Paris''"] show ?thesis by blast
qed

section \<open>Label/Value Grid Parser: what the scan writes\<close>

lemma get_set_field:
  "get_field f (set_field g v j) = (if f = g then v else get_field f j)"
  by (cases f; cases g) simp_all

lemma grid_step_field:
  "get_field f (grid_step L T lines i j) = get_field f j
   \<or> (0 < i \<and> grid_label grid_label_map (strip (py_lower L (lines ! i))) = Some f
      \<and> strip (lines ! (i - 1)) \<noteq> [] \<and> length (strip (lines ! (i - 1))) < 100
      \<and> get_field f (grid_step L T lines i j) =
          (if f = Location then prettify_location L T (strip (lines ! (i - 1)))
           else strip (lines ! (i - 1))))"
  by (auto simp: grid_step_def get_set_field simp del: set_field.simps get_field.simps split: option.splits)

lemma grid_fold_field:
  assumes "\<forall>i \<in> set is. i < length lines"
  shows "get_field f (fold (grid_step L T lines) is j) = get_field f j
   \<or> (\<exists>i. 0 < i \<and> i < length lines
        \<and> grid_label grid_label_map (strip (py_lower L (lines ! i))) = Some f
        \<and> strip (lines ! (i - 1)) \<noteq> [] \<and> length (strip (lines ! (i - 1))) < 100
        \<and> get_field f (fold (grid_step L T lines) is j) =
            (if f = Location then prettify_location L T (strip (lines ! (i - 1)))
             else strip (lines ! (i - 1))))"
  using assms
proof (induction "is" rule: rev_induct)
  case Nil
  then show ?case by simp
next
  case (snoc x xs)
  let ?j = "fold (grid_step L T lines) xs j"
  from snoc.prems have x: "x < length lines" by simp
  from snoc have IH: "get_field f ?j = get_field f j
   \<or> (\<exists>i. 0 < i \<and> i < length lines
        \<and> grid_label grid_label_map (strip (py_lower L (lines ! i))) = Some f
        \<and> strip (lines ! (i - 1)) \<noteq> [] \<and> length (strip (lines ! (i - 1))) < 100
        \<and> get_field f ?j =
            (if f = Location then prettify_location L T (strip (lines ! (i - 1)))
             else strip (lines ! (i - 1))))" by simp
  from grid_step_field [of f L T lines x ?j]
  show ?case
  proof
    assume "get_field f (grid_step L T lines x ?j) = get_field f ?j"
    with IH show ?thesis by simp
  next
    assume "0 < x \<and> grid_label grid_label_map (strip (py_lower L (lines ! x))) = Some f
      \<and> strip (lines ! (x - 1)) \<noteq> [] \<and> length (strip (lines ! (x - 1))) < 100
      \<and> get_field f (grid_step L T lines x ?j) =
          (if f = Location then prettify_location L T (strip (lines ! (x - 1)))
           else strip (lines ! (x - 1)))"
    with x show ?thesis by (intro disjI2 exI [of _ x]) simp
  qed
qed

lemma grid_step_rejects:
  "strip (lines ! (i - 1)) = [] \<or> 100 \<le> length (strip (lines ! (i - 1)))
   \<Longrightarrow> grid_step L T lines i j = j"
  by (auto simp: grid_step_def split: option.splits)

text \<open>
  Claim C8. For every sequence of lines and every field, after the scan the field holds
  its old value or the line above a line that equals a label of the field (with or without
  a trailing colon), and that line, stripped, is non-empty and shorter than 100 characters.
  A candidate that is empty or has 100 characters or more is not written, whatever the
  label line is: the round of the loop leaves the record as it was.
\<close>

theorem grid_value_ceiling:
  "(get_field f (grid_scan L T lines j) = get_field f j
    \<or> (\<exists>i. 0 < i \<and> i < length lines
        \<and> grid_label grid_label_map (strip (py_lower L (lines ! i))) = Some f
        \<and> strip (lines ! (i - 1)) \<noteq> [] \<and> length (strip (lines ! (i - 1))) < 100
        \<and> get_field f (grid_scan L T lines j) =
            (if f = Location then prettify_location L T (strip (lines ! (i - 1)))
             else strip (lines ! (i - 1)))))
   \<and> (strip (lines ! (i - 1)) = [] \<or> 100 \<le> length (strip (lines ! (i - 1)))
        \<longrightarrow> grid_step L T lines i j = j)"
  using grid_fold_field [of "[0..<length lines]" lines f L T j] grid_step_rejects [of lines i L T j]
  unfolding grid_scan_def by simp

theorem grid_value_ceiling_witness:
  "100 \<le> length (strip ([replicate 100 120, asc ''Deadline''] ! (1 - 1)))
   \<and> grid_label grid_label_map (strip (py_lower id ([replicate 100 120, asc ''Deadline''] ! 1)))
       = Some Deadline
   \<and> grid_step id id [replicate 100 120, asc ''Deadline''] 1 (new_job id id []) = new_job id id []"
proof -
  have h: "100 \<le> length (strip ([replicate 100 120, asc ''Deadline''] ! (1 - 1)))"
    by code_simp
  have l: "grid_label grid_label_map (strip (py_lower id ([replicate 100 120, asc ''Deadline''] ! 1)))
       = Some Deadline" by code_simp
  from grid_value_ceiling [of Deadline id id "[replicate 100 120, asc ''Deadline'']" "new_job id id []" 1] h l
  show ?thesis by blast
qed

text \<open>
  Claim C2. The grid parser should write a value only to a field that is still empty.
  The scan has no such test (the scan of the body lines has one, \<open>get_field field_name j = []\<close>
  in \<open>body_step\<close>): on a record whose deadline is already \<open>2025-02-01\<close>, the grid
  \<open>2025-03-15\<close> above \<open>Deadline\<close> replaces it.
\<close>

theorem grid_overwrites_set_field:
  "deadline (parse_job_details_section id id details_heading
              ((new_job id id [])\<lparr>deadline := asc ''2025-02-01''\<rparr>)) = asc ''2025-03-15''"
  by code_simp

section \<open>Field Resolver Chain\<close>

text \<open>
  Claim C1. A value that the structured data supplied should survive the fallbacks. Method 3
  assigns the text of the \<open>h1\<close> to the title without testing whether the title is empty
  (methods 2 and 4 test their fields): on a page whose structured data has the title
  \<open>Program Officer\<close> and whose \<open>h1\<close> reads \<open>Driver\<close>, the title after the structured data
  is \<open>Program Officer\<close> and the title of the result is \<open>Driver\<close>.
\<close>

theorem h1_overwrites_structured_title:
  "title (ld_items_loop id id [Object (posting (asc ''Program Officer'') (asc ''Full-time''))]
            (new_job id id [])) = asc ''Program Officer''
   \<and> map_sum id title
        (scrape_job_page id id
           (page (posting (asc ''Program Officer'') (asc ''Full-time'')) (Some (asc ''Driver'')) [] []))
      = Inr (asc ''Driver'')"
  by code_simp

section \<open>Record Assembler: the default of \<open>type\<close>\<close>

text \<open>
  Claim C9 as stated fails: the structured data reports the employment type
  \<open>Organization\<close>, the body text shows \<open>Part Time\<close> above the label \<open>Job Type\<close>, and the
  result has the type \<open>Part Time\<close>, not \<open>Full Time\<close>.
\<close>

theorem sentinel_type_counterexample:
  "ld_employmentType (posting (asc ''Program Officer'') (asc ''Organization''))
     = Some (asc ''Organization'')
   \<and> map_sum id type
        (scrape_job_page id id
           (page (posting (asc ''Program Officer'') (asc ''Organization'')) None []
              (asc ''Part Time'' @ [10] @ asc ''Job Type'')))
      = Inr (asc ''Part Time'')"
  by code_simp

lemma type_assemble:
  "type (assemble L j) =
     (if type j = [] \<or> type j = asc ''Organization'' then asc ''Full Time'' else type j)"
  by (simp add: assemble_def Let_def)

lemma full_time_literal: "asc ''Full Time'' \<noteq> [] \<and> asc ''Full Time'' \<noteq> asc ''Organization''"
  by (simp add: asc_def)

lemma type_ld_item_step:
  "(case e of Object item \<Rightarrow> \<not> usable_type (ld_employmentType item) | NotAnObject \<Rightarrow> True)
   \<Longrightarrow> type (fst (ld_item_step L T e j)) = type j"
proof (cases e)
  case NotAnObject
  then show ?thesis by (simp add: ld_item_step_def)
next
  case (Object item)
  assume "case e of Object item \<Rightarrow> \<not> usable_type (ld_employmentType item) | NotAnObject \<Rightarrow> True"
  with Object have u: "\<not> usable_type (ld_employmentType item)" by simp
  show ?thesis
  proof (cases "ld_type item = Some (asc ''JobPosting'') \<or> ld_datePosted item \<noteq> None")
    case False
    with Object show ?thesis by (simp add: ld_item_step_def)
  next
    case True
    with Object u show ?thesis
      by (cases "ld_hiringOrganization item"; cases "ld_jobLocation item")
         (auto simp: ld_item_step_def Let_def usable_type_def split: jnode.splits option.splits)
  qed
qed

lemma type_ld_items_loop:
  "\<not> list_ex (\<lambda>e. case e of Object item \<Rightarrow> usable_type (ld_employmentType item)
                        | NotAnObject \<Rightarrow> False) items
   \<Longrightarrow> type (ld_items_loop L T items j) = type j"
proof (induction items arbitrary: j)
  case Nil
  then show ?case by simp
next
  case (Cons e es)
  obtain j' b where s: "ld_item_step L T e j = (j', b)" by (cases "ld_item_step L T e j")
  from Cons.prems have "case e of Object item \<Rightarrow> \<not> usable_type (ld_employmentType item)
      | NotAnObject \<Rightarrow> True" by (cases e) simp_all
  from type_ld_item_step [OF this, of L T j] s have "type j' = type j" by simp
  with Cons s show ?case by (cases b) simp_all
qed

lemma type_ld_scripts_loop:
  "\<not> list_ex (\<lambda>s. case s of
                    Parsed items \<Rightarrow>
                      list_ex (\<lambda>e. case e of
                                     Object item \<Rightarrow> usable_type (ld_employmentType item)
                                   | NotAnObject \<Rightarrow> False) items
                  | _ \<Rightarrow> False) ss
   \<Longrightarrow> ld_scripts_loop L T ss j = Inr j' \<Longrightarrow> type j' = type j"
  by (induction L T ss j rule: ld_scripts_loop.induct) (simp_all add: type_ld_items_loop)

lemma type_raw_html_step: "type (raw_html_step doc j) = type j"
  by (simp add: raw_html_step_def Let_def split: option.splits)

lemma type_h1_step: "type (h1_step doc j) = type j"
  by (simp add: h1_step_def split: option.splits)

lemma type_company_loop: "type (company_loop ts j) = type j"
  by (induction ts) simp_all

lemma type_company_step: "type (company_step doc j) = type j"
  by (simp add: company_step_def type_company_loop)

lemma type_inline_deadline_step: "type (inline_deadline_step doc j) = type j"
  by (simp add: inline_deadline_step_def split: option.splits)

lemma type_set_field: "f \<noteq> JobType \<Longrightarrow> type (set_field f v j) = type j"
  by (cases f) simp_all

lemma type_grid_step:
  "grid_label grid_label_map (strip (py_lower L (lines ! i))) \<noteq> Some JobType
   \<Longrightarrow> type (grid_step L T lines i j) = type j"
  by (auto simp: grid_step_def type_set_field simp del: set_field.simps split: option.splits)

lemma fold_keeps_on:
  "(\<And>x j. x \<in> set xs \<Longrightarrow> g (f x j) = g j) \<Longrightarrow> g (fold f xs j) = g j"
  by (induction xs arbitrary: j) simp_all

lemma type_grid_scan:
  assumes "\<not> list_ex (\<lambda>l. grid_label grid_label_map (strip (py_lower L l)) = Some JobType) lines"
  shows "type (grid_scan L T lines j) = type j"
  unfolding grid_scan_def
proof (rule fold_keeps_on)
  fix i j assume "i \<in> set [0..<length lines]"
  then have "lines ! i \<in> set lines" by simp
  with assms have "grid_label grid_label_map (strip (py_lower L (lines ! i))) \<noteq> Some JobType"
    by (auto simp: list_ex_iff)
  then show "type (grid_step L T lines i j) = type j" by (rule type_grid_step)
qed

lemma type_h2_step:
  assumes "\<not> list_ex (\<lambda>l. grid_label grid_label_map (strip (py_lower L l)) = Some JobType)
              (details_lines (h_siblings h))"
  shows "type (h2_step L T h j) = type j"
proof -
  define heading where "heading = py_lower L (strip (h_text h))"
  define content where "content = collect_section L h"
  define A1 where "A1 \<longleftrightarrow> contains (asc ''job description'') heading \<or> heading = asc ''description''"
  define A2 where "A2 \<longleftrightarrow> contains (asc ''skills'') heading \<or> contains (asc ''qualifications'') heading
                 \<or> contains (asc ''requirements'') heading"
  define A3 where "A3 \<longleftrightarrow> contains (asc ''responsibilities'') heading \<or> contains (asc ''duties'') heading"
  define A4 where "A4 \<longleftrightarrow> contains (asc ''how to apply'') heading \<or> contains (asc ''application'') heading"
  define A5 where "A5 \<longleftrightarrow> contains (asc ''job details'') heading"
  have eq: "h2_step L T h j =
     (if A1 then j\<lparr>description := content\<rparr>
      else if A2 then j\<lparr>qualifications := content\<rparr>
      else if A3 then j\<lparr>responsibilities := content\<rparr>
      else if A4 then j\<lparr>howToApply := content @ apply_link h\<rparr>
      else if A5 then parse_job_details_section L T h j
      else j)"
    unfolding h2_step_def Let_def heading_def content_def A1_def A2_def A3_def A4_def A5_def
    by (rule refl)
  have g: "type (parse_job_details_section L T h j) = type j"
    using type_grid_scan [OF assms] by (simp add: parse_job_details_section_def)
  show ?thesis unfolding eq using g by simp
qed

lemma type_h2_loop:
  "\<not> list_ex (\<lambda>h. list_ex (\<lambda>l. grid_label grid_label_map (strip (py_lower L l)) = Some JobType)
                     (details_lines (h_siblings h))) hs
   \<Longrightarrow> type (h2_loop L T hs j) = type j"
  unfolding h2_loop_def by (induction hs arbitrary: j) (simp_all add: type_h2_step)

lemma type_body_step:
  "body_label body_label_map (py_lower L (lines ! i)) \<noteq> Some JobType
   \<Longrightarrow> type (body_step L T lines i j) = type j"
  by (auto simp: body_step_def type_set_field simp del: set_field.simps split: option.splits)

lemma type_body_scan:
  assumes "\<not> body_has_type_label L doc"
  shows "type (body_scan L T doc j) = type j"
  unfolding body_scan_def
proof (rule fold_keeps_on)
  fix i j assume "i \<in> set [1..<length (body_lines (body_text doc))]"
  then have "body_lines (body_text doc) ! i \<in> set (body_lines (body_text doc))" by simp
  with assms
  have "body_label body_label_map (py_lower L (body_lines (body_text doc) ! i)) \<noteq> Some JobType"
    by (auto simp: body_has_type_label_def list_ex_iff)
  then show "type (body_step L T (body_lines (body_text doc)) i j) = type j"
    by (rule type_body_step)
qed

lemma type_fallback_chain:
  assumes "\<not> grid_has_type_label L doc" "\<not> body_has_type_label L doc"
  shows "type (fallback_chain L T doc j) = type j"
  using assms(1)
  by (simp add: fallback_chain_def type_inline_deadline_step type_body_scan [OF assms(2)]
      type_h2_loop grid_has_type_label_def type_company_step type_h1_step type_raw_html_step)

lemma type_without_source:
  assumes "\<not> ld_supplies_type doc" "\<not> grid_has_type_label L doc" "\<not> body_has_type_label L doc"
    "scrape_job_page L T doc = Inr j'"
  shows "type j' = asc ''Full Time''"
proof -
  from assms(4) obtain j0
    where j0: "ld_scripts_loop L T (ld_scripts doc) (new_job L T (doc_url doc)) = Inr j0"
    and j': "j' = assemble L (fallback_chain L T doc j0)"
    by (auto simp: scrape_job_page_def split: sum.splits)
  from type_ld_scripts_loop [OF _ j0] assms(1) have "type j0 = []"
    by (simp add: ld_supplies_type_def new_job_def)
  with type_fallback_chain [OF assms(2,3), of T j0] have "type (fallback_chain L T doc j0) = []"
    by simp
  with j' show ?thesis by (simp add: type_assemble)
qed

text \<open>
  Claim C9, amended. The assembly sets \<open>type\<close> to \<open>Full Time\<close> when it is empty or
  \<open>Organization\<close> and keeps it otherwise; so the type of every result is neither empty nor
  \<open>Organization\<close>. A structured-data object whose employment type is \<open>Organization\<close>
  leaves \<open>type\<close> as it was. And every page ends with the type \<open>Full Time\<close> unless an
  object of its structured data has a usable employment type, or a line after one of its
  \<open>h2\<close> headings is a type label of the grid parser, or a line of its body text is the type
  label of the body scan.
\<close>

theorem type_default:
  "type (assemble L j) =
     (if type j = [] \<or> type j = asc ''Organization'' then asc ''Full Time'' else type j)
   \<and> (scrape_job_page L T doc = Inr j' \<longrightarrow> type j' \<noteq> [] \<and> type j' \<noteq> asc ''Organization'')
   \<and> (ld_employmentType item = Some (asc ''Organization'')
        \<longrightarrow> type (fst (ld_item_step L T (Object item) j)) = type j)
   \<and> (\<not> ld_supplies_type doc \<and> \<not> grid_has_type_label L doc \<and> \<not> body_has_type_label L doc
        \<and> scrape_job_page L T doc = Inr j'
        \<longrightarrow> type j' = asc ''Full Time'')"
proof (intro conjI impI)
  show "type (assemble L j) =
     (if type j = [] \<or> type j = asc ''Organization'' then asc ''Full Time'' else type j)"
    by (rule type_assemble)
next
  assume "scrape_job_page L T doc = Inr j'"
  then obtain j0 where "j' = assemble L j0"
    by (auto simp: scrape_job_page_def split: sum.splits)
  then show "type j' \<noteq> []" "type j' \<noteq> asc ''Organization''"
    using full_time_literal by (simp_all add: type_assemble)
next
  assume "ld_employmentType item = Some (asc ''Organization'')"
  then show "type (fst (ld_item_step L T (Object item) j)) = type j"
    by (intro type_ld_item_step) (simp add: usable_type_def)
next
  assume "\<not> ld_supplies_type doc \<and> \<not> grid_has_type_label L doc \<and> \<not> body_has_type_label L doc
        \<and> scrape_job_page L T doc = Inr j'"
  then show "type j' = asc ''Full Time''"
    using type_without_source by blast
qed

theorem type_default_witness:
  "\<not> isl (scrape_job_page id id
            (page (posting (asc ''Program Officer'') (asc ''Organization'')) None [] []))
   \<and> type (projr (scrape_job_page id id
            (page (posting (asc ''Program Officer'') (asc ''Organization'')) None [] [])))
       = asc ''Full Time''
   \<and> type (projr (scrape_job_page id id
            (page (posting (asc ''Program Officer'') (asc ''Organization'')) None [] []))) \<noteq> []
   \<and> ld_employmentType (posting (asc ''Program Officer'') (asc ''Organization''))
       = Some (asc ''Organization'')
   \<and> type (fst (ld_item_step id id
                  (Object (posting (asc ''Program Officer'') (asc ''Organization'')))
                  (new_job id id []))) = type (new_job id id [])
   \<and> \<not> ld_supplies_type
          (page (posting (asc ''Program Officer'') (asc ''Organization'')) None [] [])
   \<and> \<not> grid_has_type_label id
          (page (posting (asc ''Program Officer'') (asc ''Organization'')) None [] [])
   \<and> \<not> body_has_type_label id
          (page (posting (asc ''Program Officer'') (asc ''Organization'')) None [] [])"
proof -
  let ?doc = "page (posting (asc ''Program Officer'') (asc ''Organization'')) None [] []"
  have a: "\<not> isl (scrape_job_page id id ?doc)" by code_simp
  have c: "ld_employmentType (posting (asc ''Program Officer'') (asc ''Organization''))
       = Some (asc ''Organization'')" by code_simp
  have e: "\<not> ld_supplies_type ?doc" by code_simp
  have f: "\<not> grid_has_type_label id ?doc" by code_simp
  have g: "\<not> body_has_type_label id ?doc" by code_simp
  from a have d: "scrape_job_page id id ?doc = Inr (projr (scrape_job_page id id ?doc))"
    by (cases "scrape_job_page id id ?doc") simp_all
  from type_default [of id "new_job id id []" id ?doc "projr (scrape_job_page id id ?doc)"
      "posting (asc ''Program Officer'') (asc ''Organization'')"] a c d e f g
  show ?thesis by blast
qed

section \<open>Obfuscation Resolver: malformed input\<close>

lemma digit16_bound: "digit16 D c = Some d \<Longrightarrow> d < 16"
  by (auto simp: digit16_def split: if_splits option.splits)

lemma int_digits_bound:
  "int_digits D acc b cs = Some v \<Longrightarrow> v < 16 ^ length cs * (acc + 1)"
proof (induction D acc b cs rule: int_digits.induct)
  case (1 D acc after_digit)
  then show ?case by (simp split: if_splits)
next
  case (2 D acc after_digit c cs)
  show ?case
  proof (cases "c = 95")
    case True
    with 2 have "v < 16 ^ length cs * (acc + 1)" by (simp split: if_splits)
    also have "\<dots> \<le> 16 ^ length (c # cs) * (acc + 1)" by simp
    finally show ?thesis .
  next
    case False
    with "2.prems" obtain d where d: "digit16 D c = Some d"
      and v: "int_digits D (16 * acc + d) True cs = Some v"
      by (auto split: option.splits)
    from "2.IH"(2) [OF False d v] have "v < 16 ^ length cs * (16 * acc + d + 1)" .
    also have "\<dots> \<le> 16 ^ length cs * (16 * (acc + 1))"
      using digit16_bound [OF d] by (intro mult_left_mono) simp_all
    finally show ?thesis by (simp add: algebra_simps)
  qed
qed

lemma int_prefix_bound: "int_prefix D cs = Some v \<Longrightarrow> v < 16 ^ length cs"
proof -
  assume p: "int_prefix D cs = Some v"
  show ?thesis
  proof (cases "\<exists>a b cs'. cs = a # b # cs' \<and> a = 48 \<and> (b = 120 \<or> b = 88)")
    case True
    then obtain a b cs' where cs: "cs = a # b # cs'" "a = 48 \<and> (b = 120 \<or> b = 88)" by blast
    with p obtain c cs'' where cs': "cs' = c # cs''"
      and v: "int_digits D 0 False (if c = 95 then cs'' else cs') = Some v"
      by (auto split: list.splits if_splits)
    from int_digits_bound [OF v] have "v < 16 ^ length (if c = 95 then cs'' else cs')" by simp
    also have "\<dots> \<le> 16 ^ length cs"
      using cs cs' by (intro power_increasing) auto
    finally show ?thesis .
  next
    case False
    with p have "int_digits D 0 False cs = Some v"
      by (cases "(D, cs)" rule: int_prefix.cases) auto
    from int_digits_bound [OF this] show ?thesis by simp
  qed
qed

lemma py_int16_bound:
  assumes "py_int16 D s = Some v"
  shows "\<bar>v\<bar> < 16 ^ length s"
proof -
  let ?t = "rev (dropWhile int_space (rev (dropWhile int_space s)))"
  have len: "length ?t \<le> length s"
    using length_dropWhile_le [of int_space "rev (dropWhile int_space s)"]
      length_dropWhile_le [of int_space s] by simp
  from assms obtain c cs where t: "?t = c # cs"
    by (auto simp: py_int16_def split: list.splits)
  from assms t obtain n where n: "\<bar>v\<bar> = int n"
    and p: "int_prefix D cs = Some n \<or> int_prefix D (c # cs) = Some n"
    by (auto simp: py_int16_def split: if_splits)
  from p have "n < 16 ^ length (c # cs)"
  proof
    assume "int_prefix D cs = Some n"
    from int_prefix_bound [OF this] have "n < 16 ^ length cs" .
    also have "\<dots> \<le> 16 ^ length (c # cs)" by (intro power_increasing) auto
    finally show ?thesis .
  qed (rule int_prefix_bound)
  also have "\<dots> \<le> 16 ^ length s"
    using len t by (intro power_increasing) auto
  finally have "int n < int (16 ^ length s)" by (simp only: of_nat_less_iff)
  with n show ?thesis by simp
qed

lemma signed_take_bit_xor_int:
  "signed_take_bit n (a XOR b) = signed_take_bit n a XOR signed_take_bit n (b::int)"
  by (rule bit_eqI) (auto simp: bit_simps)

lemma xor_bound:
  fixes a b :: int
  assumes "\<bar>a\<bar> < 256" "\<bar>b\<bar> < 256"
  shows "- 256 \<le> a XOR b \<and> a XOR b < 256"
proof -
  from assms have "- 256 \<le> a \<and> a < 256" "- 256 \<le> b \<and> b < 256"
    by linarith+
  then have a: "signed_take_bit 8 a = a" and b: "signed_take_bit 8 b = b"
    by (simp_all add: signed_take_bit_int_eq_self_iff)
  have "signed_take_bit 8 (a XOR b) = a XOR b"
    by (simp add: signed_take_bit_xor_int a b)
  then show ?thesis
    by (simp add: signed_take_bit_int_eq_self_iff)
qed

lemma py_chr_no_overflow:
  "- 256 \<le> v \<and> v < 256 \<Longrightarrow> py_chr v = Inl e \<Longrightarrow> e = ValueError"
  by (auto simp: py_chr_def split: if_splits)

lemma groups2_length: "g \<in> set (groups2 s) \<Longrightarrow> length g \<le> 2"
  by (induction s rule: groups2.induct) auto

lemma decode_chars_error:
  assumes "\<bar>key\<bar> < 256" "\<forall>g \<in> set gs. length g \<le> 2" "decode_chars D key gs = Inl e"
  shows "e = ValueError"
  using assms
proof (induction gs)
  case Nil
  then show ?case by simp
next
  case (Cons g gs)
  show ?case
  proof (cases "py_int16 D g")
    case None
    with Cons.prems show ?thesis by simp
  next
    case (Some v)
    from py_int16_bound [OF Some] Cons.prems(2) have "\<bar>v\<bar> < 16 ^ length g" "length g \<le> 2"
      by simp_all
    moreover have "(16::int) ^ length g \<le> 16 ^ 2"
      using \<open>length g \<le> 2\<close> by (intro power_increasing) simp_all
    ultimately have v: "\<bar>v\<bar> < 256" by simp
    from xor_bound [OF v Cons.prems(1)] have r: "- 256 \<le> v XOR key \<and> v XOR key < 256" .
    show ?thesis
    proof (cases "py_chr (v XOR key)")
      case (Inl e')
      with Some Cons.prems(3) py_chr_no_overflow [OF r Inl] show ?thesis by simp
    next
      case (Inr c)
      with Some Cons show ?thesis by (auto split: sum.splits)
    qed
  qed
qed

lemma decode_try_error: "decode_cf_email_try D encoded = Inl e \<Longrightarrow> e = ValueError"
proof -
  assume a: "decode_cf_email_try D encoded = Inl e"
  show ?thesis
  proof (cases "py_int16 D (take 2 encoded)")
    case None
    with a show ?thesis by (simp add: decode_cf_email_try_def)
  next
    case (Some key)
    from py_int16_bound [OF Some] have "\<bar>key\<bar> < 16 ^ length (take 2 encoded)" .
    moreover have "(16::int) ^ length (take 2 encoded) \<le> 16 ^ 2"
      by (intro power_increasing) simp_all
    ultimately have "\<bar>key\<bar> < 256" by simp
    moreover from a Some have "decode_chars D key (groups2 (drop 2 encoded)) = Inl e"
      by (simp add: decode_cf_email_try_def)
    ultimately show ?thesis
      using decode_chars_error groups2_length by blast
  qed
qed

lemma decode_never_raises: "\<exists>s. decode_cf_email D encoded = Inr s"
  using decode_try_error [of D encoded]
  by (cases "decode_cf_email_try D encoded") (auto simp: decode_cf_email_def)

lemma py_int16_one: "\<not> int16_char D a \<Longrightarrow> py_int16 D [a] = None"
  by (simp add: py_int16_def int16_char_def)

lemma py_int16_two_first: "\<not> int16_char D a \<Longrightarrow> py_int16 D [a, b] = None"
  by (auto simp: py_int16_def int16_char_def split: option.splits)

lemma py_int16_two_second: "\<not> int16_char D b \<Longrightarrow> py_int16 D [a, b] = None"
  by (auto simp: py_int16_def int16_char_def split: option.splits)

lemma py_int16_group:
  assumes "length g \<le> 2" "\<not> list_all (int16_char D) g"
  shows "py_int16 D g = None"
proof (cases g)
  case Nil
  with assms show ?thesis by simp
next
  case (Cons a g')
  show ?thesis
  proof (cases g')
    case Nil
    with Cons assms show ?thesis by (simp add: py_int16_one)
  next
    case (Cons b g'')
    with \<open>g = a # g'\<close> assms have "g = [a, b]" "\<not> int16_char D a \<or> \<not> int16_char D b"
      by auto
    then show ?thesis using py_int16_two_first py_int16_two_second by metis
  qed
qed

lemma concat_groups2: "concat (groups2 s) = s"
  by (induction s rule: groups2.induct) simp_all

lemma decode_chars_fails:
  "\<not> list_all (\<lambda>g. py_int16 D g \<noteq> None) gs \<Longrightarrow> \<exists>e. decode_chars D key gs = Inl e"
  by (induction gs) (auto split: option.splits sum.splits)

lemma decode_rejects:
  assumes "\<not> list_all (int16_char D) encoded"
  shows "decode_cf_email D encoded = Inr []"
proof -
  have "\<exists>e. decode_cf_email_try D encoded = Inl e"
  proof (cases "py_int16 D (take 2 encoded)")
    case None
    then show ?thesis by (simp add: decode_cf_email_try_def)
  next
    case (Some key)
    have "list_all (int16_char D) (take 2 encoded)"
    proof (rule ccontr)
      assume "\<not> list_all (int16_char D) (take 2 encoded)"
      from py_int16_group [OF _ this] Some show False by simp
    qed
    moreover have "encoded = take 2 encoded @ concat (groups2 (drop 2 encoded))"
      by (simp add: concat_groups2)
    ultimately have "\<not> list_all (int16_char D) (concat (groups2 (drop 2 encoded)))"
      using assms by (metis list_all_append)
    then obtain g where g: "g \<in> set (groups2 (drop 2 encoded))" "\<not> list_all (int16_char D) g"
      by (auto simp: list_all_iff)
    from py_int16_group [OF groups2_length [OF g(1)] g(2)] g(1)
    have "\<not> list_all (\<lambda>g. py_int16 D g \<noteq> None) (groups2 (drop 2 encoded))"
      by (auto simp: list_all_iff)
    from decode_chars_fails [OF this] Some show ?thesis
      by (simp add: decode_cf_email_try_def)
  qed
  then obtain e where e: "decode_cf_email_try D encoded = Inl e" ..
  from decode_try_error [OF e] e show ?thesis by (simp add: decode_cf_email_def)
qed

lemma digit16_hex: "is_hex c \<Longrightarrow> \<exists>d. digit16 D c = Some d"
  by (auto simp: digit16_def is_hex_def)

lemma hex_not_space: "is_hex c \<Longrightarrow> \<not> int_space c \<and> c \<noteq> 43 \<and> c \<noteq> 45 \<and> c \<noteq> 95 \<and> c \<noteq> 120 \<and> c \<noteq> 88"
  by (auto simp: is_hex_def int_space_def)

lemma py_int16_hex:
  assumes "list_all is_hex g" "g \<noteq> []" "length g \<le> 2"
  shows "\<exists>v. py_int16 D g = Some v \<and> 0 \<le> v \<and> v < 256"
proof -
  from assms consider a where "g = [a]" "is_hex a" | a b where "g = [a, b]" "is_hex a" "is_hex b"
    by (cases g; cases "tl g") auto
  then obtain v where v: "py_int16 D g = Some v" "0 \<le> v"
  proof cases
    case 1
    with digit16_hex [of a D] hex_not_space [of a] that show ?thesis
      by (auto simp: py_int16_def)
  next
    case 2
    with digit16_hex [of a D] digit16_hex [of b D] hex_not_space [of a] hex_not_space [of b] that
    show ?thesis
      by (auto simp: py_int16_def)
  qed
  from py_int16_bound [OF v(1)] have "\<bar>v\<bar> < 16 ^ length g" .
  moreover have "(16::int) ^ length g \<le> 16 ^ 2"
    using assms(3) by (intro power_increasing) simp_all
  ultimately show ?thesis using v by auto
qed

lemma py_chr_small: "0 \<le> x \<Longrightarrow> x < 2 ^ 8 \<Longrightarrow> py_chr x = Inr (nat x)"
  by (simp add: py_chr_def)

lemma decode_chars_hex:
  assumes "0 \<le> key" "key < 256" "\<forall>g \<in> set gs. list_all is_hex g \<and> g \<noteq> [] \<and> length g \<le> 2"
  shows "\<exists>s. decode_chars D key gs = Inr s \<and> length s = length gs"
  using assms(3)
proof (induction gs)
  case Nil
  then show ?case by simp
next
  case (Cons g gs)
  then obtain v where v: "py_int16 D g = Some v" "0 \<le> v" "v < 256"
    using py_int16_hex [of g D] by auto
  from v assms have "0 \<le> v XOR key" by simp
  moreover from v assms have "v XOR key < 2 ^ 8"
    by (intro XOR_upper) simp_all
  ultimately have "py_chr (v XOR key) = Inr (nat (v XOR key))"
    by (rule py_chr_small)
  with v Cons show ?case by auto
qed

lemma groups2_hex:
  "list_all is_hex s \<Longrightarrow> \<forall>g \<in> set (groups2 s). list_all is_hex g \<and> g \<noteq> [] \<and> length g \<le> 2"
  by (induction s rule: groups2.induct) auto

lemma length_groups2: "length (groups2 s) = (length s + 1) div 2"
  by (induction s rule: groups2.induct) auto

lemma decode_hex:
  assumes "list_all is_hex encoded"
  shows "\<exists>s. decode_cf_email D encoded = Inr s \<and> length s = (length encoded - 1) div 2"
proof (cases "encoded = []")
  case True
  then show ?thesis by (simp add: decode_cf_email_def decode_cf_email_try_def py_int16_def)
next
  case False
  with assms have "list_all is_hex (take 2 encoded)" "take 2 encoded \<noteq> []"
    by (auto simp: list_all_iff dest: in_set_takeD)
  with py_int16_hex [of "take 2 encoded" D] obtain key
    where key: "py_int16 D (take 2 encoded) = Some key" "0 \<le> key" "key < 256" by auto
  from assms have "list_all is_hex (drop 2 encoded)"
    by (auto simp: list_all_iff dest: in_set_dropD)
  from decode_chars_hex [OF key(2,3) groups2_hex [OF this]] obtain s
    where s: "decode_chars D key (groups2 (drop 2 encoded)) = Inr s"
      "length s = length (groups2 (drop 2 encoded))" by blast
  have "length (groups2 (drop 2 encoded)) = (length encoded - 1) div 2"
    by (simp add: length_groups2)
  with s key show ?thesis
    by (simp add: decode_cf_email_def decode_cf_email_try_def)
qed

text \<open>
  On every input the decoder returns a string: no exception leaves it. It returns the
  empty string when the input has a character that \<open>int(s, 16)\<close> cannot read in a group of
  one or two characters, that is anything but a digit, white space or a sign; and an input
  of hex digits is decoded to \<open>(len - 1) // 2\<close> characters, whatever the parity of its length.
\<close>

lemma decode_total:
  "(\<exists>s. decode_cf_email D encoded = Inr s)
   \<and> (\<not> list_all (int16_char D) encoded \<longrightarrow> decode_cf_email D encoded = Inr [])
   \<and> (list_all is_hex encoded \<longrightarrow>
        (\<exists>s. decode_cf_email D encoded = Inr s \<and> length s = (length encoded - 1) div 2))"
  using decode_never_raises decode_rejects decode_hex by blast

text \<open>
  Claim C6. On malformed hex input, of odd length or with a character that is no hex digit,
  the decoder should return the empty string. Its handler returns the empty string for
  \<open>ValueError\<close> and \<open>IndexError\<close>, but slicing never raises \<open>IndexError\<close>, and nothing
  tests the length of the input or the characters of a group beyond what \<open>int\<close> rejects:
  \<open>414\<close> has odd length and is decoded to \<open>E\<close> (the key is \<open>0x41\<close>, the last group the
  single digit \<open>4\<close>), and \<open>41 4\<close> has a space, which is no hex digit, and is decoded to
  \<open>E\<close> as well, since \<open>int(' 4', 16)\<close> is 4.
\<close>

theorem malformed_hex_decoded:
  "odd (length (asc ''414'')) \<and> decode_cf_email Map.empty (asc ''414'') = Inr (asc ''E'')
   \<and> \<not> list_all is_hex (asc ''41 4'')
   \<and> decode_cf_email Map.empty (asc ''41 4'') = Inr (asc ''E'')"
  by code_simp

section \<open>Text Normalizer: length\<close>

lemma length_replace_char:
  "length new \<le> 1 \<Longrightarrow> length (replace_char old new s) \<le> length s"
  by (induction s) (auto simp: replace_char_def)

lemma length_fix_artifacts: "length (fix_artifacts t) \<le> length t"
proof -
  have "length (fix_artifacts t) \<le> length (replace_char 194 [] (replace_char 160 [32] t))"
    unfolding fix_artifacts_def by (rule length_replace_char) simp
  also have "\<dots> \<le> length (replace_char 160 [32] t)"
    by (rule length_replace_char) simp
  also have "\<dots> \<le> length t"
    by (rule length_replace_char) simp
  finally show ?thesis .
qed

lemma length_placeholder_text: "length placeholder_text = 32"
  by (simp add: placeholder_text_def asc_def)

lemma length_sub_placeholder:
  "length (sub_placeholder t) \<le> length t + 16 * count_placeholders t"
proof (induction t rule: sub_placeholder.induct)
  case 1
  then show ?case by simp
next
  case (2 c cs)
  show ?case
  proof (cases "match_placeholder (c # cs)")
    case None
    with 2 show ?thesis by simp
  next
    case (Some r)
    from match_placeholder_length [OF Some] have "length r + 16 \<le> length (c # cs)" .
    with 2(2) [OF Some] Some show ?thesis
      by (simp add: length_placeholder_text)
  qed
qed

lemma no_placeholder_sub: "\<not> has_placeholder t \<Longrightarrow> sub_placeholder t = t"
  by (induction t) auto

lemma no_placeholder_count: "\<not> has_placeholder t \<Longrightarrow> count_placeholders t = 0"
  by (induction t) auto

lemma length_collapse_blanks: "length (collapse_blanks t) \<le> length t"
proof (induction t rule: collapse_blanks.induct)
  case 1
  then show ?case by simp
next
  case (2 c cs)
  have "length (dropWhile is_blank cs) \<le> length cs" by (rule length_dropWhile_le)
  with 2 show ?case by (auto simp del: takeWhile.simps)
qed

lemma length_collapse_newlines: "length (collapse_newlines t) \<le> length t"
proof (induction t rule: collapse_newlines.induct)
  case 1
  then show ?case by simp
next
  case (2 c cs)
  show ?case
  proof (cases "3 \<le> length (takeWhile is_nl (c # cs))")
    case True
    then have "2 \<le> length (takeWhile is_nl cs)" by (simp split: if_splits)
    moreover have "length (takeWhile is_nl cs) + length (dropWhile is_nl cs) = length cs"
      by (metis length_append takeWhile_dropWhile_id)
    ultimately have "length (dropWhile is_nl cs) + 2 \<le> length cs" by linarith
    with 2(1) [OF True] True show ?thesis by (simp del: takeWhile.simps)
  next
    case False
    with 2(2) [OF False] show ?thesis by (simp del: takeWhile.simps)
  qed
qed

lemma length_lstrip: "length (lstrip s) \<le> length s"
  by (simp add: lstrip_def length_dropWhile_le)

lemma length_rstrip: "length (rstrip s) \<le> length s"
  using length_dropWhile_le [of is_space "rev s"] by (simp add: rstrip_def)

lemma length_strip: "length (strip s) \<le> length s"
  using length_rstrip [of "lstrip s"] length_lstrip [of s] by (simp add: strip_def)

lemma split_nl_nonempty: "split_nl s \<noteq> []"
  by (induction s) (auto split: list.splits)

lemma join_split_nl: "join_nl (split_nl s) = s"
proof (induction s)
  case Nil
  then show ?case by simp
next
  case (Cons c cs)
  obtain l ls where ls: "split_nl cs = l # ls"
    using split_nl_nonempty [of cs] by (cases "split_nl cs") auto
  with Cons show ?case by (cases ls) auto
qed

lemma length_join_nl:
  "length (join_nl ls) = sum_list (map length ls) + (length ls - 1)"
  by (induction ls rule: join_nl.induct) auto

lemma length_join_strip:
  "length (join_nl (map strip ls)) \<le> length (join_nl ls)"
proof -
  have "sum_list (map length (map strip ls)) \<le> sum_list (map length ls)"
    by (induction ls) (auto intro: add_mono length_strip)
  then show ?thesis by (simp add: length_join_nl)
qed

lemma length_strip_lines: "length (strip_lines t) \<le> length t"
proof -
  have "length (strip_lines t) \<le> length (join_nl (map strip (split_nl t)))"
    unfolding strip_lines_def by (rule length_strip)
  also have "\<dots> \<le> length (join_nl (split_nl t))" by (rule length_join_strip)
  finally show ?thesis by (simp add: join_split_nl)
qed

lemma length_after_sub:
  "length (strip_lines (collapse_newlines (collapse_blanks t))) \<le> length t"
  using length_strip_lines [of "collapse_newlines (collapse_blanks t)"]
    length_collapse_newlines [of "collapse_blanks t"] length_collapse_blanks [of t]
  by linarith

text \<open>
  Claim C4 as stated fails: the placeholder of 17 characters becomes the replacement text of
  32 characters.
\<close>

theorem clean_text_expands_counterexample:
  "length (asc ''[email protected]'') = 17
   \<and> length (clean_text (asc ''[email protected]'')) = 32"
  by code_simp

text \<open>
  Claim C4, amended. The only step of \<open>clean_text\<close> that can add characters is the
  replacement of the placeholder, by at most 16 characters for each match (on the text
  after the three character replacements): the result is at most as long as the input
  plus 16 for each placeholder, and never longer than the input when there is none.
\<close>

theorem clean_text_length:
  "length (clean_text x) \<le> length x + 16 * count_placeholders (fix_artifacts x)
   \<and> (\<not> has_placeholder (fix_artifacts x) \<longrightarrow> length (clean_text x) \<le> length x)"
proof -
  have "length (clean_text x) \<le> length x + 16 * count_placeholders (fix_artifacts x)"
  proof (cases "x = []")
    case True
    then show ?thesis by (simp add: clean_text_def)
  next
    case False
    then have "length (clean_text x) \<le> length (sub_placeholder (fix_artifacts x))"
      by (simp add: clean_text_def length_after_sub)
    also have "\<dots> \<le> length (fix_artifacts x) + 16 * count_placeholders (fix_artifacts x)"
      by (rule length_sub_placeholder)
    finally show ?thesis using length_fix_artifacts [of x] by linarith
  qed
  then show ?thesis by (auto simp: no_placeholder_count)
qed

theorem clean_text_length_witness:
  "\<not> has_placeholder (fix_artifacts (asc ''  a   b  ''))
   \<and> length (clean_text (asc ''  a   b  '')) \<le> length (asc ''  a   b  '')"
proof -
  have h: "\<not> has_placeholder (fix_artifacts (asc ''  a   b  ''))" by code_simp
  with clean_text_length [of "asc ''  a   b  ''"] show ?thesis by blast
qed

section \<open>Text Normalizer: the characters of the result\<close>

lemma set_replace_char:
  "set (replace_char old new s) = (set s - {old}) \<union> (if old \<in> set s then set new else {})"
  by (induction s) (auto simp: replace_char_def)

lemma replace_char_absent: "old \<notin> set s \<Longrightarrow> replace_char old new s = s"
  by (induction s) (auto simp: replace_char_def)

lemma artifact_free_fix: "artifact_free (fix_artifacts t)"
  by (auto simp: artifact_free_def fix_artifacts_def set_replace_char split: if_splits)

lemma fix_artifacts_id: "artifact_free t \<Longrightarrow> fix_artifacts t = t"
  by (simp add: artifact_free_def fix_artifacts_def replace_char_absent)

lemma set_sub_placeholder: "set (sub_placeholder t) \<subseteq> set t \<union> set placeholder_text"
proof (induction t rule: sub_placeholder.induct)
  case 1
  then show ?case by simp
next
  case (2 c cs)
  show ?case
  proof (cases "match_placeholder (c # cs)")
    case None
    with 2 show ?thesis by auto
  next
    case (Some r)
    from Some obtain r1 where r1: "match_lit (asc ''[email'') (c # cs) = Some r1"
      and r2: "match_lit (asc ''protected]'') (dropWhile is_space r1) = Some r"
      by (auto simp: match_placeholder_def split: option.splits)
    have m: "\<And>p s r. match_lit p s = Some r \<Longrightarrow> set r \<subseteq> set s"
    proof -
      fix p s r show "match_lit p s = Some r \<Longrightarrow> set r \<subseteq> set s"
        by (induction p s rule: match_lit.induct) (auto split: if_splits)
    qed
    have "set r \<subseteq> set (dropWhile is_space r1)" using m [OF r2] .
    also have "\<dots> \<subseteq> set r1" by (rule set_dropWhileD [THEN subsetI]) 
    also have "\<dots> \<subseteq> set (c # cs)" using m [OF r1] .
    finally show ?thesis using 2(2) [OF Some] Some by auto
  qed
qed

lemma set_collapse_blanks: "set (collapse_blanks t) \<subseteq> insert 32 (set t)"
proof (induction t rule: collapse_blanks.induct)
  case 1
  then show ?case by simp
next
  case (2 c cs)
  have "set (dropWhile is_blank cs) \<subseteq> set cs" by (auto dest: set_dropWhileD)
  with 2 show ?case by (auto simp del: takeWhile.simps)
qed

lemma set_collapse_newlines: "set (collapse_newlines t) \<subseteq> insert 10 (set t)"
proof (induction t rule: collapse_newlines.induct)
  case 1
  then show ?case by simp
next
  case (2 c cs)
  have "set (dropWhile is_nl cs) \<subseteq> set cs" by (auto dest: set_dropWhileD)
  with 2 show ?case by (auto simp del: takeWhile.simps)
qed

lemma set_strip: "set (strip s) \<subseteq> set s"
  by (auto simp: strip_def lstrip_def rstrip_def dest!: set_dropWhileD)

lemma set_join_nl: "set (join_nl ls) \<subseteq> insert 10 (\<Union> (set ` set ls))"
  by (induction ls rule: join_nl.induct) auto

lemma set_split_nl: "l \<in> set (split_nl s) \<Longrightarrow> set l \<subseteq> set s"
proof (induction s arbitrary: l)
  case Nil
  then show ?case by simp
next
  case (Cons c cs)
  obtain l0 ls where ls: "split_nl cs = l0 # ls"
    using split_nl_nonempty [of cs] by (cases "split_nl cs") auto
  from Cons.IH [of l0] ls have l0: "set l0 \<subseteq> set cs" by simp
  show ?case
  proof (cases "c = 10")
    case True
    with Cons show ?thesis by auto
  next
    case False
    with Cons.prems ls have "l = c # l0 \<or> l \<in> set ls" by auto
    then show ?thesis
    proof
      assume "l = c # l0"
      with l0 show ?thesis by auto
    next
      assume "l \<in> set ls"
      with Cons.IH [of l] ls show ?thesis by auto
    qed
  qed
qed

lemma set_strip_lines: "set (strip_lines t) \<subseteq> insert 10 (set t)"
proof -
  have "set (strip_lines t) \<subseteq> set (join_nl (map strip (split_nl t)))"
    unfolding strip_lines_def by (rule set_strip)
  also have "\<dots> \<subseteq> insert 10 (\<Union> (set ` set (map strip (split_nl t))))"
    by (rule set_join_nl)
  also have "\<dots> \<subseteq> insert 10 (set t)"
    using set_strip set_split_nl by fastforce
  finally show ?thesis .
qed

lemma placeholder_text_chars: "set placeholder_text \<subseteq> {c. c < 128}"
  by (simp add: placeholder_text_def asc_def)

lemma artifact_free_clean_text: "artifact_free (clean_text x)"
proof (cases "x = []")
  case True
  then show ?thesis by (simp add: clean_text_def artifact_free_def)
next
  case False
  let ?t0 = "fix_artifacts x"
  let ?t1 = "sub_placeholder ?t0"
  let ?t2 = "collapse_blanks ?t1"
  let ?t3 = "collapse_newlines ?t2"
  have "set (strip_lines ?t3) \<subseteq> insert 10 (insert 32 (set ?t0 \<union> set placeholder_text))"
    using set_strip_lines [of ?t3] set_collapse_newlines [of ?t2] set_collapse_blanks [of ?t1]
      set_sub_placeholder [of ?t0] by blast
  moreover have "artifact_free ?t0" by (rule artifact_free_fix)
  ultimately have "\<forall>c \<in> set (strip_lines ?t3). c \<noteq> 160 \<and> c \<noteq> 194 \<and> c \<noteq> 183"
    using placeholder_text_chars by (fastforce simp: artifact_free_def)
  with False show ?thesis
    by (auto simp: clean_text_def artifact_free_def)
qed

section \<open>Text Normalizer: no placeholder is left\<close>

lemma ci_match_bracket: "ci_match q 91 \<Longrightarrow> q = 91"
  by (auto simp: ci_match_def)

lemma match_lit_split:
  "match_lit p s = Some r \<Longrightarrow>
   \<exists>m. s = m @ r \<and> length m = length p \<and> (\<forall>r'. match_lit p (m @ r') = Some r')
       \<and> (\<forall>i < length p. ci_match (p ! i) (m ! i))"
proof (induction p s rule: match_lit.induct)
  case (1 s)
  then show ?case by simp
next
  case (2 p ps)
  then show ?case by simp
next
  case (3 p ps c cs)
  then have c: "ci_match p c" and "match_lit ps cs = Some r" by (auto split: if_splits)
  with 3 obtain m where m: "cs = m @ r" "length m = length ps"
    "\<forall>r'. match_lit ps (m @ r') = Some r'" "\<forall>i < length ps. ci_match (ps ! i) (m ! i)"
    by auto
  show ?case
  proof (intro exI [of _ "c # m"] conjI allI impI)
    fix i assume "i < length (p # ps)"
    with m(4) c show "ci_match ((p # ps) ! i) ((c # m) ! i)" by (cases i) auto
  qed (use m c in auto)
qed

lemma solid_email: "ci_match q c \<Longrightarrow> q \<in> set (asc ''[email'') \<Longrightarrow> \<not> is_space c"
  by (auto simp: asc_def ci_match_def is_space_def)

lemma solid_protected: "ci_match q c \<Longrightarrow> q \<in> set (asc ''protected]'') \<Longrightarrow> \<not> is_space c"
  by (auto simp: asc_def ci_match_def is_space_def)

lemma not_space_bracket: "\<not> is_space 91"
  by (simp add: is_space_def)

text \<open>
  A match is a block that starts with a bracket, has no other opening bracket, and matches
  whatever follows it.
\<close>

lemma match_placeholder_split:
  assumes "match_placeholder s = Some r"
  shows "\<exists>m. s = 91 # m @ r \<and> 91 \<notin> set m \<and> (\<forall>r'. match_placeholder (91 # m @ r') = Some r')"
proof -
  from assms obtain r1 where r1: "match_lit (asc ''[email'') s = Some r1"
    and r2: "match_lit (asc ''protected]'') (dropWhile is_space r1) = Some r"
    by (auto simp: match_placeholder_def split: option.splits)
  from match_lit_split [OF r1] obtain m1 where m1: "s = m1 @ r1" "length m1 = 6"
    "\<forall>r'. match_lit (asc ''[email'') (m1 @ r') = Some r'"
    "\<forall>i < 6. ci_match (asc ''[email'' ! i) (m1 ! i)"
    by (auto simp: asc_def)
  from match_lit_split [OF r2] obtain m2 where m2: "dropWhile is_space r1 = m2 @ r"
    "length m2 = 10" "\<forall>r'. match_lit (asc ''protected]'') (m2 @ r') = Some r'"
    "\<forall>i < 10. ci_match (asc ''protected]'' ! i) (m2 ! i)"
    by (auto simp: asc_def)
  let ?w = "takeWhile is_space r1"
  have r1_eq: "r1 = ?w @ m2 @ r" using m2(1) by (metis takeWhile_dropWhile_id)
  from m2(2) obtain a m2' where m2': "m2 = a # m2'" by (cases m2) auto
  from m2(4) [rule_format, of 0] m2' have "ci_match 112 a" by (simp add: asc_def)
  then have a: "\<not> is_space a" by (auto simp: ci_match_def is_space_def)
  from m1(2) obtain b m1' where m1': "m1 = b # m1'" by (cases m1) auto
  from m1(4) [rule_format, of 0] m1' have "ci_match 91 b" by (simp add: asc_def)
  then have b: "b = 91" by (auto simp: ci_match_def)
  have no1: "91 \<notin> set m1'"
  proof
    assume "91 \<in> set m1'"
    then obtain i where i: "i < length m1'" "m1' ! i = 91" by (auto simp: in_set_conv_nth)
    with m1(2) m1' have "Suc i < 6" by simp
    with m1(4) have "ci_match (asc ''[email'' ! Suc i) (m1 ! Suc i)" by blast
    with i m1' have "asc ''[email'' ! Suc i = 91" by (simp add: ci_match_bracket)
    with \<open>Suc i < 6\<close> show False
      by (auto simp: asc_def less_Suc_eq numeral_eq_Suc)
  qed
  have no2: "91 \<notin> set m2"
  proof
    assume "91 \<in> set m2"
    then obtain i where i: "i < length m2" "m2 ! i = 91" by (auto simp: in_set_conv_nth)
    with m2(2) have i10: "i < 10" by simp
    with m2(4) have "ci_match (asc ''protected]'' ! i) (m2 ! i)" by blast
    with i have "asc ''protected]'' ! i = 91" by (simp add: ci_match_bracket)
    with i10 show False
      by (auto simp: asc_def less_Suc_eq numeral_eq_Suc)
  qed
  have now: "91 \<notin> set ?w"
    using not_space_bracket by (auto dest: set_takeWhileD)
  let ?m = "m1' @ ?w @ m2"
  have "s = 91 # ?m @ r" using m1(1) m1' b r1_eq by simp
  moreover have "91 \<notin> set ?m" using no1 no2 now by simp
  moreover have "\<forall>r'. match_placeholder (91 # ?m @ r') = Some r'"
  proof
    fix r'
    have "match_lit (asc ''[email'') (m1 @ (?w @ m2 @ r')) = Some (?w @ m2 @ r')"
      using m1(3) by blast
    moreover have "dropWhile is_space (?w @ m2 @ r') = m2 @ r'"
      using a m2' by (auto simp: dropWhile_append3 dest: set_takeWhileD)
    ultimately show "match_placeholder (91 # ?m @ r') = Some r'"
      using m2(3) m1' b by (simp add: match_placeholder_def)
  qed
  ultimately show ?thesis by blast
qed

lemma sub_placeholder_prefix:
  "91 \<notin> set m \<Longrightarrow> sub_placeholder cs = m @ r \<Longrightarrow> \<exists>r'. cs = m @ r'"
proof (induction m arbitrary: cs r)
  case Nil
  then show ?case by simp
next
  case (Cons x m)
  from Cons.prems(2) obtain y ys where cs: "cs = y # ys" by (cases cs) auto
  show ?case
  proof (cases "match_placeholder (y # ys)")
    case None
    with Cons.prems cs have "x = y" "sub_placeholder ys = m @ r" by auto
    with Cons.IH [of ys r] Cons.prems(1) cs show ?thesis by auto
  next
    case (Some r0)
    with Cons.prems cs have "x = 91"
      by (auto simp: placeholder_text_def asc_def)
    with Cons.prems(1) show ?thesis by simp
  qed
qed

lemma has_placeholder_suffix: "has_placeholder b \<Longrightarrow> has_placeholder (a @ b)"
  by (induction a) auto

lemma has_placeholder_text: "has_placeholder (placeholder_text @ t) = has_placeholder t"
  by (simp add: placeholder_text_def asc_def match_placeholder_def ci_match_def)

lemma no_placeholder_after_sub: "\<not> has_placeholder (sub_placeholder t)"
proof (induction t rule: sub_placeholder.induct)
  case 1
  then show ?case by simp
next
  case (2 c cs)
  show ?case
  proof (cases "match_placeholder (c # cs)")
    case (Some r)
    with 2(2) [OF Some] show ?thesis by (simp add: has_placeholder_text)
  next
    case None
    have "match_placeholder (c # sub_placeholder cs) = None"
    proof (rule ccontr)
      assume "match_placeholder (c # sub_placeholder cs) \<noteq> None"
      then obtain r where "match_placeholder (c # sub_placeholder cs) = Some r" by auto
      from match_placeholder_split [OF this] obtain m where m: "c = 91"
        "sub_placeholder cs = m @ r" "91 \<notin> set m"
        "\<forall>r'. match_placeholder (91 # m @ r') = Some r'" by auto
      from sub_placeholder_prefix [OF m(3) m(2)] obtain r' where "cs = m @ r'" ..
      with m(1,4) have "match_placeholder (c # cs) = Some r'" by simp
      with None show False by simp
    qed
    with None 2(1) [OF None] show ?thesis by simp
  qed
qed

text \<open>
  The white-space steps keep the words of a text. \<open>squeeze\<close> turns every run of white
  space into one space and drops a run at the end; the pattern matches in \<open>squeeze s\<close>
  where it matches in \<open>s\<close>.
\<close>

fun squeeze :: "pystr \<Rightarrow> pystr" where
  "squeeze [] = []"
| "squeeze (c # cs) =
     (if is_space c
      then (case squeeze cs of [] \<Rightarrow> [] | d # ds \<Rightarrow> if is_space d then d # ds else 32 # d # ds)
      else c # squeeze cs)"

lemma is_space_32: "is_space 32"
  by (simp add: is_space_def)

lemma squeeze_space_head:
  "is_space c \<Longrightarrow> squeeze (c # cs) = [] \<or> (\<exists>d ds. squeeze (c # cs) = d # ds \<and> is_space d)"
  by (auto simp: is_space_32 split: list.splits)

definition solid :: "pystr \<Rightarrow> bool" where
  "solid p \<longleftrightarrow> (\<forall>q \<in> set p. \<forall>c. ci_match q c \<longrightarrow> \<not> is_space c)"

lemma solid_Cons: "solid (q # p) \<longleftrightarrow> (\<forall>c. ci_match q c \<longrightarrow> \<not> is_space c) \<and> solid p"
  by (auto simp: solid_def)

lemma solid_literals: "solid (asc ''[email'')" "solid (asc ''protected]'')"
  using solid_email solid_protected by (auto simp: solid_def)

lemma match_lit_squeeze:
  "solid p \<Longrightarrow> match_lit p (squeeze s) = map_option squeeze (match_lit p s)"
proof (induction p s rule: match_lit.induct)
  case (1 s)
  then show ?case by simp
next
  case (2 p ps)
  then show ?case by simp
next
  case (3 q ps c cs)
  from "3.prems" have q: "\<And>d. is_space d \<Longrightarrow> \<not> ci_match q d" and ps: "solid ps"
    by (auto simp: solid_Cons)
  show ?case
  proof (cases "is_space c")
    case False
    with 3 ps show ?thesis by simp
  next
    case True
    from squeeze_space_head [OF True, of cs] q
    have "match_lit (q # ps) (squeeze (c # cs)) = None" by auto
    with q [OF True] show ?thesis by simp
  qed
qed

lemma dropWhile_squeeze: "dropWhile is_space (squeeze r) = squeeze (dropWhile is_space r)"
proof (induction r)
  case Nil
  then show ?case by simp
next
  case (Cons c cs)
  show ?case
  proof (cases "is_space c")
    case False
    then show ?thesis by simp
  next
    case True
    then have "dropWhile is_space (squeeze (c # cs)) = dropWhile is_space (squeeze cs)"
      by (auto simp: is_space_32 split: list.splits)
    with Cons True show ?thesis by simp
  qed
qed

lemma match_placeholder_squeeze:
  "match_placeholder (squeeze s) = map_option squeeze (match_placeholder s)"
  by (cases "match_lit (asc ''[email'') s")
     (simp_all add: match_placeholder_def match_lit_squeeze solid_literals dropWhile_squeeze)

lemma match_placeholder_space: "is_space c \<Longrightarrow> match_placeholder (c # cs) = None"
  using solid_email [of 91 c] by (auto simp: match_placeholder_def asc_def)

lemma has_placeholder_space: "is_space c \<Longrightarrow> has_placeholder (c # cs) = has_placeholder cs"
  by (simp add: match_placeholder_space)

lemma has_placeholder_squeeze: "has_placeholder (squeeze s) = has_placeholder s"
proof (induction s)
  case Nil
  then show ?case by simp
next
  case (Cons c cs)
  show ?case
  proof (cases "is_space c")
    case False
    have "match_placeholder (c # squeeze cs) = map_option squeeze (match_placeholder (c # cs))"
      using match_placeholder_squeeze [of "c # cs"] False by simp
    with Cons False show ?thesis by simp
  next
    case True
    have "has_placeholder (squeeze (c # cs)) = has_placeholder (squeeze cs)"
    proof (cases "squeeze cs")
      case Nil
      with True show ?thesis by simp
    next
      case (Cons d ds)
      with True has_placeholder_space [OF is_space_32, of "d # ds"] show ?thesis
        by (simp del: has_placeholder.simps)
    qed
    also have "\<dots> = has_placeholder cs" by (rule Cons.IH)
    also have "\<dots> = has_placeholder (c # cs)"
      using has_placeholder_space [OF True] by (rule sym)
    finally show ?thesis .
  qed
qed


text \<open>
  The words of a text, the maximal blocks without white space, and the words joined by
  single spaces.
\<close>

fun wordsof :: "pystr \<Rightarrow> pystr list" where
  "wordsof [] = []"
| "wordsof (c # cs) =
     (if is_space c then wordsof cs
      else (case cs of
              [] \<Rightarrow> [[c]]
            | d # _ \<Rightarrow>
                if is_space d then [c] # wordsof cs
                else (case wordsof cs of [] \<Rightarrow> [[c]] | w # ws \<Rightarrow> (c # w) # ws)))"

fun unwords :: "pystr list \<Rightarrow> pystr" where
  "unwords [] = []"
| "unwords [w] = w"
| "unwords (w # v # ws) = w @ 32 # unwords (v # ws)"

lemma wordsof_nonspace: "\<not> is_space c \<Longrightarrow> wordsof (c # cs) \<noteq> []"
  by (auto split: list.splits)

lemma wordsof_Cons_nonspace:
  "\<not> is_space c \<Longrightarrow>
   wordsof (c # cs) =
     (if cs = [] \<or> is_space (hd cs) then [c] # wordsof cs
      else (c # hd (wordsof cs)) # tl (wordsof cs))"
  by (cases cs) (auto split: list.splits)

lemma wordsof_append_space: "is_space s \<Longrightarrow> wordsof (a @ s # b) = wordsof a @ wordsof b"
proof (induction a)
  case Nil
  then show ?case by simp
next
  case (Cons c a)
  show ?case
  proof (cases "is_space c")
    case True
    with Cons show ?thesis by simp
  next
    case False
    show ?thesis
    proof (cases a)
      case Nil
      with False Cons.prems show ?thesis by simp
    next
      case (Cons d a')
      show ?thesis
      proof (cases "is_space d")
        case True
        with False Cons \<open>is_space s \<Longrightarrow> wordsof (a @ s # b) = wordsof a @ wordsof b\<close>
          \<open>is_space s\<close> show ?thesis by simp
      next
        case d: False
        from wordsof_nonspace [OF d, of a'] obtain w ws where "wordsof (d # a') = w # ws"
          by (cases "wordsof (d # a')") auto
        with False d Cons \<open>is_space s \<Longrightarrow> wordsof (a @ s # b) = wordsof a @ wordsof b\<close>
          \<open>is_space s\<close> show ?thesis by simp
      qed
    qed
  qed
qed

lemma wordsof_all_space: "list_all is_space a \<Longrightarrow> wordsof a = []"
  by (induction a) auto

lemma wordsof_space_prefix: "list_all is_space a \<Longrightarrow> wordsof (a @ b) = wordsof b"
  by (induction a) auto

lemma wordsof_space_suffix: "list_all is_space b \<Longrightarrow> wordsof (a @ b) = wordsof a"
  by (cases b) (auto simp: wordsof_append_space wordsof_all_space)

lemma wordsof_dropWhile:
  "(\<And>c. P c \<Longrightarrow> is_space c) \<Longrightarrow> wordsof (dropWhile P s) = wordsof s"
  by (induction s) auto

lemma wordsof_rstrip: "wordsof (rstrip s) = wordsof s"
proof -
  have "s = rstrip s @ rev (takeWhile is_space (rev s))"
    unfolding rstrip_def by (metis rev_append rev_rev_ident takeWhile_dropWhile_id)
  moreover have "list_all is_space (rev (takeWhile is_space (rev s)))"
    by (auto simp: list_all_iff dest: set_takeWhileD)
  ultimately show ?thesis using wordsof_space_suffix by metis
qed

lemma wordsof_strip: "wordsof (strip s) = wordsof s"
  by (simp add: strip_def lstrip_def wordsof_rstrip wordsof_dropWhile)

lemma is_space_10: "is_space 10"
  by (simp add: is_space_def)

lemma wordsof_join_nl: "wordsof (join_nl ls) = concat (map wordsof ls)"
  by (induction ls rule: join_nl.induct) (simp_all add: wordsof_append_space is_space_10)

lemma wordsof_strip_lines: "wordsof (strip_lines t) = wordsof t"
proof -
  have "wordsof (strip_lines t) = concat (map wordsof (map strip (split_nl t)))"
    by (simp add: strip_lines_def wordsof_strip wordsof_join_nl)
  also have "\<dots> = concat (map wordsof (split_nl t))"
    by (simp add: wordsof_strip comp_def)
  also have "\<dots> = wordsof (join_nl (split_nl t))"
    by (simp add: wordsof_join_nl)
  finally show ?thesis by (simp add: join_split_nl)
qed

lemma wordsof_Cons_cong:
  assumes "wordsof cs = wordsof cs'" "cs = [] \<longleftrightarrow> cs' = []"
    "cs \<noteq> [] \<Longrightarrow> is_space (hd cs) \<longleftrightarrow> is_space (hd cs')"
  shows "wordsof (c # cs) = wordsof (c # cs')"
proof (cases "is_space c")
  case True
  with assms show ?thesis by simp
next
  case False
  show ?thesis
    unfolding wordsof_Cons_nonspace [OF False] using assms by auto
qed


lemma blank_is_space: "is_blank c \<Longrightarrow> is_space c"
  by (auto simp: is_blank_def is_space_def)

lemma nl_is_space: "is_nl c \<Longrightarrow> is_space c"
  by (auto simp: is_nl_def is_space_def)

lemma collapse_blanks_Nil: "collapse_blanks s = [] \<longleftrightarrow> s = []"
  by (cases s) (simp_all del: takeWhile.simps)

lemma collapse_blanks_hd: "s \<noteq> [] \<Longrightarrow> is_space (hd (collapse_blanks s)) \<longleftrightarrow> is_space (hd s)"
  by (cases s) (auto simp: is_space_32 blank_is_space split: if_splits)

lemma wordsof_collapse_blanks: "wordsof (collapse_blanks t) = wordsof t"
proof (induction t rule: collapse_blanks.induct)
  case 1
  then show ?case by simp
next
  case (2 c cs)
  show ?case
  proof (cases "2 \<le> length (takeWhile is_blank (c # cs))")
    case True
    then have c: "is_blank c" by (auto split: if_splits)
    have "wordsof (collapse_blanks (c # cs)) = wordsof (collapse_blanks (dropWhile is_blank cs))"
      using True by (simp add: is_space_32 del: takeWhile.simps)
    also have "\<dots> = wordsof (dropWhile is_blank cs)" using 2(1) [OF True] .
    also have "\<dots> = wordsof cs" by (rule wordsof_dropWhile) (rule blank_is_space)
    also have "\<dots> = wordsof (c # cs)" using blank_is_space [OF c] by simp
    finally show ?thesis .
  next
    case False
    then have "collapse_blanks (c # cs) = c # collapse_blanks cs"
      by (simp del: takeWhile.simps)
    moreover have "wordsof (c # collapse_blanks cs) = wordsof (c # cs)"
      using 2(2) [OF False] collapse_blanks_Nil [of cs] collapse_blanks_hd [of cs]
      by (intro wordsof_Cons_cong) auto
    ultimately show ?thesis by simp
  qed
qed

lemma collapse_newlines_Nil: "collapse_newlines s = [] \<longleftrightarrow> s = []"
  by (cases s) (simp_all del: takeWhile.simps)

lemma collapse_newlines_hd: "s \<noteq> [] \<Longrightarrow> hd (collapse_newlines s) = hd s"
  by (cases s) (auto simp: is_nl_def split: if_splits)

lemma wordsof_collapse_newlines: "wordsof (collapse_newlines t) = wordsof t"
proof (induction t rule: collapse_newlines.induct)
  case 1
  then show ?case by simp
next
  case (2 c cs)
  show ?case
  proof (cases "3 \<le> length (takeWhile is_nl (c # cs))")
    case True
    then have c: "is_nl c" by (auto split: if_splits)
    have "wordsof (collapse_newlines (c # cs)) = wordsof (collapse_newlines (dropWhile is_nl cs))"
      using True by (simp add: is_space_10 del: takeWhile.simps)
    also have "\<dots> = wordsof (dropWhile is_nl cs)" using 2(1) [OF True] .
    also have "\<dots> = wordsof cs" by (rule wordsof_dropWhile) (rule nl_is_space)
    also have "\<dots> = wordsof (c # cs)" using nl_is_space [OF c] by simp
    finally show ?thesis .
  next
    case False
    then have "collapse_newlines (c # cs) = c # collapse_newlines cs"
      by (simp del: takeWhile.simps)
    moreover have "wordsof (c # collapse_newlines cs) = wordsof (c # cs)"
      using 2(2) [OF False] collapse_newlines_Nil [of cs] collapse_newlines_hd [of cs]
      by (intro wordsof_Cons_cong) auto
    ultimately show ?thesis by simp
  qed
qed

lemma squeeze_shape:
  "squeeze s = d # ds \<Longrightarrow> is_space d \<Longrightarrow> d = 32 \<and> ds \<noteq> [] \<and> \<not> is_space (hd ds)"
proof (induction s arbitrary: d ds)
  case Nil
  then show ?case by simp
next
  case (Cons c cs)
  show ?case
  proof (cases "is_space c")
    case False
    with Cons.prems show ?thesis by simp
  next
    case True
    show ?thesis
    proof (cases "squeeze cs")
      case Nil
      with True Cons.prems show ?thesis by simp
    next
      case (Cons e es)
      show ?thesis
      proof (cases "is_space e")
        case True
        with \<open>is_space c\<close> Cons Cons.prems Cons.IH [of e es]
          \<open>\<And>d ds. \<lbrakk>squeeze cs = d # ds; is_space d\<rbrakk> \<Longrightarrow> d = 32 \<and> ds \<noteq> [] \<and> \<not> is_space (hd ds)\<close>
        show ?thesis by simp
      next
        case False
        with \<open>is_space c\<close> Cons \<open>squeeze (c # cs) = d # ds\<close> have "d # ds = 32 # e # es"
          by simp
        then have "d = 32" "ds = e # es" by simp_all
        with False show ?thesis by simp
      qed
    qed
  qed
qed

lemma wordsof_no_empty: "[] \<notin> set (wordsof s)"
  by (induction s rule: wordsof.induct) (auto split: list.splits)

lemma unwords_Nil: "[] \<notin> set ws \<Longrightarrow> unwords ws = [] \<longleftrightarrow> ws = []"
  by (cases ws rule: unwords.cases) auto

lemma unwords_Cons_Cons: "unwords ((c # w) # ws) = c # unwords (w # ws)"
  by (cases ws) simp_all

lemma squeeze_words: "dropWhile is_space (squeeze s) = unwords (wordsof s)"
proof (induction s)
  case Nil
  then show ?case by simp
next
  case (Cons c cs)
  show ?case
  proof (cases "is_space c")
    case True
    have "dropWhile is_space (squeeze (c # cs)) = squeeze (dropWhile is_space (c # cs))"
      by (rule dropWhile_squeeze)
    also have "\<dots> = dropWhile is_space (squeeze cs)"
      using True by (simp add: dropWhile_squeeze)
    finally show ?thesis using Cons True by simp
  next
    case False
    have lhs: "dropWhile is_space (squeeze (c # cs)) = c # squeeze cs"
      using False by simp
    show ?thesis
    proof (cases "cs = [] \<or> is_space (hd cs)")
      case True
      have sq: "squeeze cs = (if wordsof cs = [] then [] else 32 # unwords (wordsof cs))"
      proof (cases "squeeze cs")
        case Nil
        with Cons.IH have "unwords (wordsof cs) = []" by simp
        with unwords_Nil [OF wordsof_no_empty] Nil show ?thesis by simp
      next
        case (Cons d ds)
        with True have cs: "cs \<noteq> []" "is_space (hd cs)" by auto
        then obtain e es where "cs = e # es" "is_space e" by (cases cs) auto
        with squeeze_space_head [of e es] Cons have d: "is_space d" by auto
        from squeeze_shape [OF Cons d] have "d = 32" "ds \<noteq> []" "\<not> is_space (hd ds)" by auto
        then have "dropWhile is_space (squeeze cs) = ds"
          using Cons d by (cases ds) auto
        with \<open>dropWhile is_space (squeeze cs) = unwords (wordsof cs)\<close>
        have "unwords (wordsof cs) = ds" by simp
        with \<open>ds \<noteq> []\<close> \<open>d = 32\<close> Cons show ?thesis by auto
      qed
      have "unwords (wordsof (c # cs)) = unwords ([c] # wordsof cs)"
        unfolding wordsof_Cons_nonspace [OF False] using True by simp
      also have "\<dots> = c # squeeze cs"
        using sq by (cases "wordsof cs") simp_all
      finally show ?thesis using lhs by simp
    next
      case nonspace: False
      then obtain e es where cs: "cs = e # es" "\<not> is_space e" by (cases cs) auto
      from wordsof_nonspace [OF cs(2), of es] cs obtain w ws where w: "wordsof cs = w # ws"
        by (cases "wordsof cs") auto
      have "squeeze cs = dropWhile is_space (squeeze cs)" using cs by simp
      also have "\<dots> = unwords (w # ws)" using Cons.IH w by simp
      finally have "c # squeeze cs = unwords ((c # w) # ws)"
        by (simp add: unwords_Cons_Cons)
      moreover have "wordsof (c # cs) = (c # w) # ws"
        unfolding wordsof_Cons_nonspace [OF False] using nonspace w by simp
      ultimately show ?thesis using lhs by simp
    qed
  qed
qed

lemma has_placeholder_dropWhile_space:
  "has_placeholder (dropWhile is_space s) = has_placeholder s"
  by (induction s) (simp_all add: has_placeholder_space del: has_placeholder.simps(2))

lemma has_placeholder_words: "has_placeholder s = has_placeholder (unwords (wordsof s))"
  using has_placeholder_squeeze [of s] has_placeholder_dropWhile_space [of "squeeze s"]
  by (simp add: squeeze_words)

lemma has_placeholder_whitespace_steps:
  "has_placeholder (strip_lines (collapse_newlines (collapse_blanks t))) = has_placeholder t"
  using has_placeholder_words [of t]
    has_placeholder_words [of "strip_lines (collapse_newlines (collapse_blanks t))"]
  by (simp add: wordsof_strip_lines wordsof_collapse_newlines wordsof_collapse_blanks)

lemma no_placeholder_clean_text: "\<not> has_placeholder (clean_text x)"
  by (simp add: clean_text_def has_placeholder_whitespace_steps no_placeholder_after_sub)

section \<open>Text Normalizer: a second pass\<close>

text \<open>
  What a second call of \<open>clean_text\<close> finds in the result of a first one. The result has no
  artifact character and no placeholder, so the replacements and the substitution leave it
  alone. The next three parts show that it has no two blanks in a row, that each of its lines
  and the whole are stripped, and what is left for the newline step to do.
\<close>

subsection \<open>No two blanks in a row\<close>

text \<open>\<open>has_blank_pair\<close> holds when two characters of \<open>[ \t]\<close> stand side by side.\<close>

fun has_blank_pair :: "pystr \<Rightarrow> bool" where
  "has_blank_pair [] = False"
| "has_blank_pair [c] = False"
| "has_blank_pair (a # b # cs) = ((is_blank a \<and> is_blank b) \<or> has_blank_pair (b # cs))"

lemma has_blank_pair_Cons:
  "has_blank_pair (c # s) = ((is_blank c \<and> s \<noteq> [] \<and> is_blank (hd s)) \<or> has_blank_pair s)"
  by (cases s) auto

lemma blank_run2:
  "2 \<le> length (takeWhile is_blank (c # cs)) \<longleftrightarrow> is_blank c \<and> cs \<noteq> [] \<and> is_blank (hd cs)"
  by (cases cs) auto

lemma no_blank_pair_collapse: "\<not> has_blank_pair t \<Longrightarrow> collapse_blanks t = t"
proof (induction t)
  case Nil
  then show ?case by simp
next
  case (Cons c cs)
  from Cons.prems have "\<not> (is_blank c \<and> cs \<noteq> [] \<and> is_blank (hd cs))" "\<not> has_blank_pair cs"
    by (simp_all add: has_blank_pair_Cons)
  then have "\<not> 2 \<le> length (takeWhile is_blank (c # cs))" "collapse_blanks cs = cs"
    using Cons.IH by (simp_all only: blank_run2 not_False_eq_True)
  then show ?case by (simp del: takeWhile.simps)
qed

lemma collapse_blanks_hd_keep:
  "s \<noteq> [] \<Longrightarrow> \<not> is_blank (hd s) \<Longrightarrow> hd (collapse_blanks s) = hd s"
  by (cases s) auto

lemma dropWhile_hd: "dropWhile P s \<noteq> [] \<Longrightarrow> \<not> P (hd (dropWhile P s))"
  by (metis hd_dropWhile)

lemma has_blank_pair_suffix: "has_blank_pair b \<Longrightarrow> has_blank_pair (a @ b)"
  by (induction a) (auto simp: has_blank_pair_Cons simp del: has_blank_pair.simps(2,3))

lemma has_blank_pair_prefix: "has_blank_pair a \<Longrightarrow> has_blank_pair (a @ b)"
  by (induction a rule: has_blank_pair.induct) (auto simp: has_blank_pair_Cons)

lemma has_blank_pair_dropWhile: "has_blank_pair (dropWhile P s) \<Longrightarrow> has_blank_pair s"
  using has_blank_pair_suffix [of "dropWhile P s" "takeWhile P s"] by simp

lemma no_blank_pair_collapse_blanks: "\<not> has_blank_pair (collapse_blanks t)"
proof (induction t rule: collapse_blanks.induct)
  case 1
  then show ?case by simp
next
  case (2 c cs)
  show ?case
  proof (cases "2 \<le> length (takeWhile is_blank (c # cs))")
    case True
    define d where "d = dropWhile is_blank cs"
    have "\<not> (collapse_blanks d \<noteq> [] \<and> is_blank (hd (collapse_blanks d)))"
    proof (cases "d = []")
      case True
      then show ?thesis by simp
    next
      case False
      then have "\<not> is_blank (hd d)" unfolding d_def by (rule dropWhile_hd)
      with collapse_blanks_hd_keep [OF False] show ?thesis by simp
    qed
    moreover have "\<not> has_blank_pair (collapse_blanks d)"
      unfolding d_def using 2(1) [OF True] .
    moreover have "collapse_blanks (c # cs) = 32 # collapse_blanks d"
      unfolding d_def using True by (simp del: takeWhile.simps)
    ultimately show ?thesis
      by (simp add: has_blank_pair_Cons del: has_blank_pair.simps(2,3))
  next
    case False
    then have n: "\<not> (is_blank c \<and> cs \<noteq> [] \<and> is_blank (hd cs))"
      using blank_run2 [of c cs] by blast
    have "\<not> (is_blank c \<and> collapse_blanks cs \<noteq> [] \<and> is_blank (hd (collapse_blanks cs)))"
    proof
      assume a: "is_blank c \<and> collapse_blanks cs \<noteq> [] \<and> is_blank (hd (collapse_blanks cs))"
      then have cs: "cs \<noteq> []" by auto
      with n a have "\<not> is_blank (hd cs)" by simp
      from collapse_blanks_hd_keep [OF cs this] a this show False by simp
    qed
    with 2(2) [OF False] False show ?thesis
      by (simp add: has_blank_pair_Cons del: takeWhile.simps has_blank_pair.simps(2,3))
  qed
qed

lemma not_blank_10: "\<not> is_blank 10"
  by (simp add: is_blank_def)

lemma no_blank_pair_collapse_newlines:
  "\<not> has_blank_pair t \<Longrightarrow> \<not> has_blank_pair (collapse_newlines t)"
proof (induction t rule: collapse_newlines.induct)
  case 1
  then show ?case by simp
next
  case (2 c cs)
  from "2.prems" have cs: "\<not> has_blank_pair cs" by (simp add: has_blank_pair_Cons)
  show ?case
  proof (cases "3 \<le> length (takeWhile is_nl (c # cs))")
    case True
    from cs have "\<not> has_blank_pair (dropWhile is_nl cs)"
      using has_blank_pair_dropWhile by blast
    with 2(1) [OF True] True show ?thesis
      by (simp add: has_blank_pair_Cons not_blank_10 del: takeWhile.simps has_blank_pair.simps(2,3))
  next
    case False
    from "2.prems" have n: "\<not> (is_blank c \<and> cs \<noteq> [] \<and> is_blank (hd cs))"
      by (simp add: has_blank_pair_Cons)
    have "\<not> (is_blank c \<and> collapse_newlines cs \<noteq> [] \<and> is_blank (hd (collapse_newlines cs)))"
      using n collapse_newlines_Nil [of cs] collapse_newlines_hd [of cs] by auto
    with 2(2) [OF False cs] False show ?thesis
      by (simp add: has_blank_pair_Cons del: takeWhile.simps has_blank_pair.simps(2,3))
  qed
qed

lemma has_blank_pair_nl: "has_blank_pair (a @ 10 # b) = (has_blank_pair a \<or> has_blank_pair b)"
proof (induction a)
  case Nil
  then show ?case by (simp add: has_blank_pair_Cons not_blank_10 del: has_blank_pair.simps(2,3))
next
  case (Cons c a)
  then show ?case
    by (cases a) (auto simp: has_blank_pair_Cons not_blank_10 simp del: has_blank_pair.simps(2,3))
qed

lemma has_blank_pair_join_nl: "has_blank_pair (join_nl ls) = list_ex has_blank_pair ls"
  by (induction ls rule: join_nl.induct) (simp_all add: has_blank_pair_nl del: has_blank_pair.simps(2,3))

lemma has_blank_pair_rstrip: "has_blank_pair (rstrip s) \<Longrightarrow> has_blank_pair s"
proof -
  have "s = rstrip s @ rev (takeWhile is_space (rev s))"
    unfolding rstrip_def by (metis rev_append rev_rev_ident takeWhile_dropWhile_id)
  then show "has_blank_pair (rstrip s) \<Longrightarrow> has_blank_pair s"
    using has_blank_pair_prefix by metis
qed

lemma has_blank_pair_strip: "has_blank_pair (strip s) \<Longrightarrow> has_blank_pair s"
  unfolding strip_def lstrip_def
  using has_blank_pair_rstrip has_blank_pair_dropWhile by blast

lemma no_blank_pair_strip_lines:
  assumes "\<not> has_blank_pair t"
  shows "\<not> has_blank_pair (strip_lines t)"
proof
  assume "has_blank_pair (strip_lines t)"
  then have "has_blank_pair (join_nl (map strip (split_nl t)))"
    unfolding strip_lines_def by (rule has_blank_pair_strip)
  then obtain l where l: "l \<in> set (split_nl t)" "has_blank_pair (strip l)"
    by (auto simp: has_blank_pair_join_nl list_ex_iff)
  then have "list_ex has_blank_pair (split_nl t)"
    using has_blank_pair_strip by (auto simp: list_ex_iff)
  then have "has_blank_pair (join_nl (split_nl t))" by (simp only: has_blank_pair_join_nl)
  with assms show False by (simp add: join_split_nl)
qed

lemma collapse_blanks_clean_text: "collapse_blanks (clean_text x) = clean_text x"
proof (cases "x = []")
  case True
  then show ?thesis by (simp add: clean_text_def)
next
  case False
  have "\<not> has_blank_pair (clean_text x)"
    using False
    by (simp add: clean_text_def no_blank_pair_strip_lines no_blank_pair_collapse_newlines
        no_blank_pair_collapse_blanks)
  then show ?thesis by (rule no_blank_pair_collapse)
qed


subsection \<open>Stripped lines\<close>

text \<open>
  \<open>stripped\<close> holds of a string that \<open>str.strip\<close> leaves unchanged; \<open>lines_ok\<close> holds when every
  line of \<open>text.split('\n')\<close> is such a string.
\<close>

definition stripped :: "pystr \<Rightarrow> bool" where
  "stripped s \<longleftrightarrow> s = [] \<or> (\<not> is_space (hd s) \<and> \<not> is_space (last s))"

definition lines_ok :: "pystr \<Rightarrow> bool" where
  "lines_ok z \<longleftrightarrow> list_all stripped (split_nl z)"

lemma dropWhile_id_hd: "xs \<noteq> [] \<Longrightarrow> \<not> P (hd xs) \<Longrightarrow> dropWhile P xs = xs"
  by (cases xs) auto

lemma last_dropWhile: "dropWhile P xs \<noteq> [] \<Longrightarrow> last (dropWhile P xs) = last xs"
  by (metis last_appendR takeWhile_dropWhile_id)

lemma stripped_strip: "stripped s \<Longrightarrow> strip s = s"
proof (cases "s = []")
  case True
  then show ?thesis by (simp add: strip_def lstrip_def rstrip_def)
next
  case False
  assume "stripped s"
  with False have h: "\<not> is_space (hd s)" and l: "\<not> is_space (last s)"
    by (simp_all add: stripped_def)
  from False l have "dropWhile is_space (rev s) = rev s"
    by (intro dropWhile_id_hd) (simp_all add: hd_rev)
  with dropWhile_id_hd [where P = is_space, OF False h] show ?thesis
    by (simp add: strip_def lstrip_def rstrip_def)
qed

lemma strip_stripped: "stripped (strip s)"
proof -
  let ?t = "dropWhile is_space s"
  let ?u = "dropWhile is_space (rev ?t)"
  have eq: "strip s = rev ?u" by (simp add: strip_def lstrip_def rstrip_def)
  show ?thesis
  proof (cases "?u = []")
    case True
    with eq show ?thesis by (simp add: stripped_def)
  next
    case False
    then have t: "?t \<noteq> []" by (metis dropWhile.simps(1) rev.simps(1))
    from dropWhile_hd [OF False] have 1: "\<not> is_space (hd ?u)" .
    from last_dropWhile [OF False] have "last ?u = last (rev ?t)" .
    also have "\<dots> = hd ?t" using t by (simp add: last_rev)
    finally have 2: "\<not> is_space (last ?u)" using dropWhile_hd [OF t] by simp
    from 1 2 False eq show ?thesis by (simp add: stripped_def hd_rev last_rev)
  qed
qed

lemma stripped_rev: "stripped (rev l) = stripped l"
  by (cases "l = []") (auto simp: stripped_def hd_rev last_rev)

lemma split_nl_Cons:
  "split_nl (c # s) =
     (if c = 10 then [] # split_nl s else (c # hd (split_nl s)) # tl (split_nl s))"
  using split_nl_nonempty [of s] by (cases "split_nl s") auto

lemma split_nl_append_nl: "split_nl (a @ 10 # b) = split_nl a @ split_nl b"
proof (induction a)
  case Nil
  then show ?case by simp
next
  case (Cons c a)
  obtain l ls where "split_nl a = l # ls"
    using split_nl_nonempty [of a] by (cases "split_nl a") auto
  with Cons show ?case by simp
qed

lemma split_nl_snoc:
  "c \<noteq> 10 \<Longrightarrow> split_nl (a @ [c]) = butlast (split_nl a) @ [last (split_nl a) @ [c]]"
proof (induction a)
  case Nil
  then show ?case by simp
next
  case (Cons d a)
  obtain l ls where l: "split_nl a = l # ls"
    using split_nl_nonempty [of a] by (cases "split_nl a") auto
  with Cons show ?case by (cases ls) (auto split: list.splits)
qed

lemma split_nl_rev: "split_nl (rev z) = rev (map rev (split_nl z))"
proof (induction z)
  case Nil
  then show ?case by simp
next
  case (Cons c z)
  obtain l ls where l: "split_nl z = l # ls"
    using split_nl_nonempty [of z] by (cases "split_nl z") auto
  show ?case
  proof (cases "c = 10")
    case True
    with Cons split_nl_append_nl [of "rev z" "[]"] show ?thesis by simp
  next
    case False
    with Cons l split_nl_snoc [OF False, of "rev z"] show ?thesis by simp
  qed
qed

lemma lines_ok_rev: "lines_ok (rev z) = lines_ok z"
  by (simp add: lines_ok_def split_nl_rev list_all_iff stripped_rev)

lemma lines_ok_lstrip: "lines_ok z \<Longrightarrow> lines_ok (dropWhile is_space z)"
proof (induction z)
  case Nil
  then show ?case by simp
next
  case (Cons c z)
  show ?case
  proof (cases "is_space c")
    case False
    with Cons.prems show ?thesis by simp
  next
    case True
    have c: "c = 10"
    proof (rule ccontr)
      assume "c \<noteq> 10"
      with Cons.prems have "stripped (c # hd (split_nl z))"
        by (simp add: lines_ok_def split_nl_Cons del: split_nl.simps)
      with True show False by (simp add: stripped_def)
    qed
    with Cons.prems have "lines_ok z" by (simp add: lines_ok_def)
    with Cons.IH True show ?thesis by simp
  qed
qed

lemma lines_ok_rstrip: "lines_ok z \<Longrightarrow> lines_ok (rstrip z)"
  unfolding rstrip_def using lines_ok_lstrip [of "rev z"] by (simp add: lines_ok_rev)

lemma lines_ok_strip: "lines_ok z \<Longrightarrow> lines_ok (strip z)"
  by (simp add: strip_def lstrip_def lines_ok_rstrip lines_ok_lstrip)

lemma split_nl_no_nl: "l \<in> set (split_nl s) \<Longrightarrow> 10 \<notin> set l"
proof (induction s arbitrary: l)
  case Nil
  then show ?case by simp
next
  case (Cons c s)
  obtain l0 ls where ls: "split_nl s = l0 # ls"
    using split_nl_nonempty [of s] by (cases "split_nl s") auto
  with Cons.IH [of l0] have l0: "10 \<notin> set l0" by simp
  from Cons.prems ls have "l = [] \<or> l = c # l0 \<and> c \<noteq> 10 \<or> l \<in> set (split_nl s)"
    by (auto split: if_splits)
  with l0 Cons.IH [of l] show ?case by auto
qed

lemma split_nl_line: "10 \<notin> set l \<Longrightarrow> split_nl l = [l]"
  by (induction l) auto

lemma split_join_nl: "ls \<noteq> [] \<Longrightarrow> \<forall>l \<in> set ls. 10 \<notin> set l \<Longrightarrow> split_nl (join_nl ls) = ls"
proof (induction ls rule: join_nl.induct)
  case 1
  then show ?case by simp
next
  case (2 l)
  then show ?case by (simp add: split_nl_line)
next
  case (3 l m ls)
  then show ?case by (simp add: split_nl_append_nl split_nl_line)
qed

lemma lines_ok_join_strip: "lines_ok (join_nl (map strip (split_nl w)))"
proof -
  have "\<forall>l \<in> set (map strip (split_nl w)). 10 \<notin> set l"
    using split_nl_no_nl set_strip by fastforce
  then have "split_nl (join_nl (map strip (split_nl w))) = map strip (split_nl w)"
    by (intro split_join_nl) (simp_all add: split_nl_nonempty)
  then show ?thesis by (simp add: lines_ok_def list_all_iff strip_stripped)
qed

lemma tidy_strip_lines: "lines_ok (strip_lines w) \<and> stripped (strip_lines w)"
  unfolding strip_lines_def by (simp add: lines_ok_strip lines_ok_join_strip strip_stripped)

lemma strip_lines_id: "lines_ok z \<Longrightarrow> stripped z \<Longrightarrow> strip_lines z = z"
proof -
  assume l: "lines_ok z" and s: "stripped z"
  from l have "map strip (split_nl z) = split_nl z"
    by (intro map_idI) (simp add: lines_ok_def list_all_iff stripped_strip)
  with s show ?thesis by (simp add: strip_lines_def join_split_nl stripped_strip)
qed


subsection \<open>The newline step on a stripped text\<close>

text \<open>
  Collapsing newlines turns lines into empty lines or leaves them as they are, and keeps the
  first and the last character, so a text with stripped lines stays one.
\<close>

lemma split_nl_collapse_newlines:
  "hd (split_nl (collapse_newlines s)) = hd (split_nl s) \<and>
   set (tl (split_nl (collapse_newlines s))) \<subseteq> insert [] (set (tl (split_nl s)))"
proof (induction s rule: collapse_newlines.induct)
  case 1
  then show ?case by simp
next
  case (2 c cs)
  have in_hd: "\<And>z. hd (split_nl z) \<in> set (split_nl z)"
    using split_nl_nonempty by simp
  have in_tl: "\<And>z. set (tl (split_nl z)) \<subseteq> set (split_nl z)"
    by (simp add: list.set_sel(2) split_nl_nonempty subsetI)
  have all: "\<And>z. set (split_nl z) = insert (hd (split_nl z)) (set (tl (split_nl z)))"
    by (metis list.collapse list.simps(15) split_nl_nonempty)
  show ?case
  proof (cases "3 \<le> length (takeWhile is_nl (c # cs))")
    case True
    define D where "D = dropWhile is_nl cs"
    from True have c: "c = 10" by (auto simp: is_nl_def split: if_splits)
    have eq: "collapse_newlines (c # cs) = 10 # 10 # collapse_newlines D"
      using True by (simp add: D_def del: takeWhile.simps)
    have sub: "set (split_nl D) \<subseteq> set (split_nl cs)"
      unfolding D_def by (induction cs) (auto simp: is_nl_def split: list.splits)
    from 2(1) [OF True] have ih1: "hd (split_nl (collapse_newlines D)) = hd (split_nl D)"
      and ih2: "set (tl (split_nl (collapse_newlines D))) \<subseteq> insert [] (set (tl (split_nl D)))"
      by (simp_all add: D_def)
    have "set (split_nl (collapse_newlines D)) \<subseteq> insert [] (set (split_nl D))"
      using all [of "collapse_newlines D"] ih1 ih2 in_hd [of D] in_tl [of D] by auto
    with sub have "set (split_nl (collapse_newlines D)) \<subseteq> insert [] (set (split_nl cs))"
      by auto
    with eq c show ?thesis by (simp del: collapse_newlines.simps)
  next
    case False
    then have eq: "collapse_newlines (c # cs) = c # collapse_newlines cs"
      by (simp del: takeWhile.simps)
    from 2(2) [OF False] have ih1: "hd (split_nl (collapse_newlines cs)) = hd (split_nl cs)"
      and ih2: "set (tl (split_nl (collapse_newlines cs))) \<subseteq> insert [] (set (tl (split_nl cs)))"
      by simp_all
    show ?thesis
    proof (cases "c = 10")
      case True
      have "set (split_nl (collapse_newlines cs)) \<subseteq> insert [] (set (split_nl cs))"
        using all [of "collapse_newlines cs"] ih1 ih2 in_hd [of cs] in_tl [of cs] by auto
      with eq True show ?thesis by (simp del: collapse_newlines.simps)
    next
      case False
      with eq ih1 ih2 show ?thesis
        by (simp add: split_nl_Cons del: collapse_newlines.simps split_nl.simps)
    qed
  qed
qed

lemma lines_ok_collapse_newlines: "lines_ok y \<Longrightarrow> lines_ok (collapse_newlines y)"
proof -
  assume ok: "lines_ok y"
  have all: "\<And>z. set (split_nl z) = insert (hd (split_nl z)) (set (tl (split_nl z)))"
    by (metis list.collapse list.simps(15) split_nl_nonempty)
  have "set (split_nl (collapse_newlines y)) \<subseteq> insert [] (set (split_nl y))"
    using all [of "collapse_newlines y"] all [of y] split_nl_collapse_newlines [of y] by auto
  moreover have "stripped []" by (simp add: stripped_def)
  ultimately show ?thesis using ok by (auto simp: lines_ok_def list_all_iff)
qed

lemma collapse_newlines_last: "s \<noteq> [] \<Longrightarrow> last (collapse_newlines s) = last s"
proof (induction s rule: collapse_newlines.induct)
  case 1
  then show ?case by simp
next
  case (2 c cs)
  show ?case
  proof (cases "3 \<le> length (takeWhile is_nl (c # cs))")
    case True
    define D where "D = dropWhile is_nl cs"
    from True have c: "c = 10" and cs: "cs \<noteq> []" by (auto simp: is_nl_def split: if_splits)
    have eq: "collapse_newlines (c # cs) = 10 # 10 # collapse_newlines D"
      using True by (simp add: D_def del: takeWhile.simps)
    show ?thesis
    proof (cases "D = []")
      case True
      then have "\<forall>x \<in> set cs. is_nl x" by (simp add: D_def)
      with cs have "last cs = 10" using last_in_set [OF cs] by (auto simp: is_nl_def)
      moreover from True have "collapse_newlines D = []" by simp
      ultimately show ?thesis using eq cs by (simp del: collapse_newlines.simps)
    next
      case False
      from 2(1) [OF True] False have "last (collapse_newlines D) = last D" by (simp add: D_def)
      also have "\<dots> = last cs" using False last_dropWhile [of is_nl cs] by (simp add: D_def)
      finally show ?thesis using eq False cs
        by (simp add: collapse_newlines_Nil del: collapse_newlines.simps)
    qed
  next
    case False
    then have eq: "collapse_newlines (c # cs) = c # collapse_newlines cs"
      by (simp del: takeWhile.simps)
    with 2(2) [OF False] show ?thesis
      by (cases "cs = []") (simp_all add: collapse_newlines_Nil del: collapse_newlines.simps)
  qed
qed

lemma stripped_collapse_newlines: "stripped y \<Longrightarrow> stripped (collapse_newlines y)"
  by (auto simp: stripped_def collapse_newlines_Nil collapse_newlines_hd collapse_newlines_last)

text \<open>
  A second pass does what its newline step does, and nothing else: the other steps find
  nothing to change.
\<close>

lemma clean_text_twice: "clean_text (clean_text x) = collapse_newlines (clean_text x)"
proof (cases "clean_text x = []")
  case True
  then show ?thesis by (simp add: clean_text_def)
next
  case False
  define y where "y = clean_text x"
  from False have x: "x \<noteq> []" by (auto simp: clean_text_def)
  have a: "fix_artifacts y = y"
    unfolding y_def by (rule fix_artifacts_id [OF artifact_free_clean_text])
  have b: "sub_placeholder y = y"
    unfolding y_def by (rule no_placeholder_sub [OF no_placeholder_clean_text])
  have c: "collapse_blanks y = y"
    unfolding y_def by (rule collapse_blanks_clean_text)
  from x have "lines_ok y" and "stripped y"
    using tidy_strip_lines by (simp_all add: y_def clean_text_def)
  then have "strip_lines (collapse_newlines y) = collapse_newlines y"
    by (intro strip_lines_id lines_ok_collapse_newlines stripped_collapse_newlines)
  moreover from False have "y \<noteq> []" by (simp add: y_def)
  ultimately have "clean_text y = collapse_newlines y"
    using a b c by (simp add: clean_text_def)
  then show ?thesis unfolding y_def .
qed

text \<open>
  The newline step leaves no three newlines in a row, and changes nothing where there are
  none.
\<close>

lemma nl_run3: "3 \<le> length (takeWhile is_nl s) \<longleftrightarrow> starts_with [10, 10, 10] s"
proof (cases s)
  case Nil
  then show ?thesis by simp
next
  case s1: (Cons a s1)
  show ?thesis
  proof (cases s1)
    case Nil
    with s1 show ?thesis by simp
  next
    case s2: (Cons b s2)
    with s1 show ?thesis by (cases s2) (auto simp: is_nl_def)
  qed
qed

lemma no_run_collapse_newlines: "\<not> contains [10, 10, 10] s \<Longrightarrow> collapse_newlines s = s"
proof (induction s)
  case Nil
  then show ?case by simp
next
  case (Cons c cs)
  then have "\<not> 3 \<le> length (takeWhile is_nl (c # cs))" and "\<not> contains [10, 10, 10] cs"
    unfolding nl_run3 by simp_all
  with Cons.IH show ?case by (simp del: takeWhile.simps)
qed

lemma not_starts_with_nl: "s = [] \<or> hd s \<noteq> 10 \<Longrightarrow> \<not> starts_with (10 # p) s"
  by (cases s) auto

lemma starts_nl2_collapse_newlines:
  assumes st: "starts_with [10, 10] (collapse_newlines s)"
  shows "starts_with [10, 10] s"
proof (cases s)
  case Nil
  with st show ?thesis by simp
next
  case (Cons c cs)
  show ?thesis
  proof (cases "3 \<le> length (takeWhile is_nl (c # cs))")
    case True
    then have "starts_with [10, 10, 10] (c # cs)" unfolding nl_run3 .
    with Cons show ?thesis by (cases cs) auto
  next
    case False
    with Cons have "collapse_newlines s = c # collapse_newlines cs"
      by (simp del: takeWhile.simps)
    with st have c: "c = 10" and "starts_with [10] (collapse_newlines cs)" by simp_all
    then have "collapse_newlines cs \<noteq> []" and "hd (collapse_newlines cs) = 10"
      by (cases "collapse_newlines cs"; simp)+
    then have "cs \<noteq> []" and "hd cs = 10"
      using collapse_newlines_Nil [of cs] collapse_newlines_hd [of cs] by auto
    with c Cons show ?thesis by (cases cs) auto
  qed
qed

lemma collapse_newlines_no_run: "\<not> contains [10, 10, 10] (collapse_newlines s)"
proof (induction s rule: collapse_newlines.induct)
  case 1
  then show ?case by simp
next
  case (2 c cs)
  show ?case
  proof (cases "3 \<le> length (takeWhile is_nl (c # cs))")
    case True
    define D where "D = dropWhile is_nl cs"
    define E where "E = collapse_newlines D"
    have eq: "collapse_newlines (c # cs) = 10 # 10 # E"
      using True by (simp add: D_def E_def del: takeWhile.simps)
    from 2(1) [OF True] have ih: "\<not> contains [10, 10, 10] E" by (simp add: D_def E_def)
    have "D = [] \<or> \<not> is_nl (hd D)" unfolding D_def using dropWhile_hd [of is_nl cs] by blast
    then have "E = [] \<or> hd E \<noteq> 10"
      unfolding E_def using collapse_newlines_Nil [of D] collapse_newlines_hd [of D]
      by (auto simp: is_nl_def)
    then have "\<not> starts_with [10] E" and "\<not> starts_with [10, 10] E"
      by (rule not_starts_with_nl)+
    with ih eq show ?thesis by (simp del: collapse_newlines.simps)
  next
    case False
    then have eq: "collapse_newlines (c # cs) = c # collapse_newlines cs"
      by (simp del: takeWhile.simps)
    from 2(2) [OF False] have ih: "\<not> contains [10, 10, 10] (collapse_newlines cs)" .
    have "\<not> starts_with [10, 10, 10] (c # collapse_newlines cs)"
    proof
      assume "starts_with [10, 10, 10] (c # collapse_newlines cs)"
      then have c: "c = 10" and "starts_with [10, 10] (collapse_newlines cs)" by simp_all
      from starts_nl2_collapse_newlines [OF this(2)] c
      have "starts_with [10, 10, 10] (c # cs)" by simp
      with False show False unfolding nl_run3 by simp
    qed
    with ih eq show ?thesis by (simp del: collapse_newlines.simps)
  qed
qed

lemma collapse_newlines_idem: "collapse_newlines (collapse_newlines s) = collapse_newlines s"
  by (rule no_run_collapse_newlines [OF collapse_newlines_no_run])

text \<open>
  \<open>clean_text\<close> is defined on every string, since each of its steps ends, and it maps the
  empty string to the empty string. A second pass collapses the newlines of the first
  result, and a third pass changes nothing any more. A second pass is the identity on every
  result that has no three newlines in a row.
\<close>

lemma clean_text_second_pass:
  "clean_text [] = [] \<and>
   clean_text (clean_text x) = collapse_newlines (clean_text x) \<and>
   clean_text (clean_text (clean_text x)) = clean_text (clean_text x)"
proof -
  have "clean_text (clean_text (clean_text x)) = collapse_newlines (clean_text (clean_text x))"
    by (rule clean_text_twice)
  also have "\<dots> = clean_text (clean_text x)"
    unfolding clean_text_twice [of x] by (rule collapse_newlines_idem)
  finally show ?thesis by (simp add: clean_text_twice) (simp add: clean_text_def)
qed

lemma clean_text_stable:
  "\<not> contains [10, 10, 10] (clean_text x) \<Longrightarrow> clean_text (clean_text x) = clean_text x"
  by (simp add: clean_text_twice no_run_collapse_newlines)

text \<open>
  Claim C5: the Text Normalizer is idempotent, \<open>clean_text(clean_text(x)) == clean_text(x)\<close>
  for every string \<open>x\<close>; it is total and maps the empty string to the empty string.

  The code does not do this on a text with lines of blanks only. \<open>clean_text\<close> collapses
  newlines before it strips the lines, so on \<open>"a\n \n \nb"\<close> the pattern \<open>\n{3,}\<close> finds
  nothing, the two lines of one blank each become empty, and the result \<open>"a\n\n\nb"\<close> has the
  three newlines in a row that the newline step is there to remove. The second pass removes
  them and returns \<open>"a\n\nb"\<close>. Characters are code points: 97 is \<open>a\<close>, 98 is \<open>b\<close>, 10 the
  newline and 32 the space.
\<close>

theorem second_pass_changes_text:
  "clean_text [97, 10, 32, 10, 32, 10, 98] = [97, 10, 10, 10, 98] \<and>
   clean_text (clean_text [97, 10, 32, 10, 32, 10, 98]) = [97, 10, 10, 98] \<and>
   clean_text (clean_text [97, 10, 32, 10, 32, 10, 98]) \<noteq> clean_text [97, 10, 32, 10, 32, 10, 98]"
  by code_simp

section \<open>Record Assembler: the cap on the description\<close>

lemma is_clean_clean_text: "is_clean (clean_text x)"
  by (simp add: is_clean_def artifact_free_clean_text no_placeholder_clean_text)

lemma is_clean_Nil: "is_clean []"
  by (simp add: is_clean_def artifact_free_def)

lemma length_clean_text_bound:
  "length (clean_text x) \<le> length x + 16 * count_placeholders (fix_artifacts x)"
proof (cases "x = []")
  case True
  then show ?thesis by (simp add: clean_text_def)
next
  case False
  then have "length (clean_text x) \<le> length (sub_placeholder (fix_artifacts x))"
    by (simp add: clean_text_def length_after_sub)
  also have "\<dots> \<le> length (fix_artifacts x) + 16 * count_placeholders (fix_artifacts x)"
    by (rule length_sub_placeholder)
  finally show ?thesis using length_fix_artifacts [of x] by linarith
qed

lemma length_clean_text_clean: "is_clean t \<Longrightarrow> length (clean_text t) \<le> length t"
  using length_clean_text_bound [of t]
  by (simp add: is_clean_def fix_artifacts_id no_placeholder_count)

lemma parts_clean_parts: "parts j' = parts j \<Longrightarrow> parts_clean j' = parts_clean j"
  by (simp add: parts_def parts_clean_def)

lemma parts_set_field: "parts (set_field f v j) = parts j"
  by (cases f) (simp_all add: parts_def)

lemma parts_new_job: "parts_clean (new_job L T u)"
  by (simp add: parts_clean_def new_job_def is_clean_Nil)

lemma parts_update:
  "parts (j\<lparr>title := a\<rparr>) = parts j"
  "parts (j\<lparr>datePosted := a\<rparr>) = parts j"
  "parts (j\<lparr>deadline := a\<rparr>) = parts j"
  "parts (j\<lparr>organization := a\<rparr>) = parts j"
  "parts (j\<lparr>location := a\<rparr>) = parts j"
  "parts (j\<lparr>type := a\<rparr>) = parts j"
  by (simp_all add: parts_def)

lemma parts_ld_item_step: "parts (fst (ld_item_step L T e j)) = parts j"
proof (cases e)
  case NotAnObject
  then show ?thesis by (simp add: ld_item_step_def)
next
  case (Object item)
  show ?thesis
  proof (cases "ld_type item = Some (asc ''JobPosting'') \<or> ld_datePosted item \<noteq> None")
    case False
    with Object show ?thesis by (simp add: ld_item_step_def)
  next
    case True
    with Object show ?thesis
      by (cases "ld_hiringOrganization item"; cases "ld_jobLocation item")
         (simp_all add: ld_item_step_def Let_def parts_update split: jnode.splits option.splits)
  qed
qed

lemma parts_ld_items_loop: "parts (ld_items_loop L T es j) = parts j"
proof (induction es arbitrary: j)
  case Nil
  then show ?case by simp
next
  case (Cons e es)
  obtain j' b where s: "ld_item_step L T e j = (j', b)" by (cases "ld_item_step L T e j")
  with parts_ld_item_step [of L T e j] have "parts j' = parts j" by simp
  with Cons [of j'] s show ?case by (cases b) simp_all
qed

lemma parts_ld_scripts_loop:
  "ld_scripts_loop L T ss j = Inr j' \<Longrightarrow> parts j' = parts j"
  by (induction L T ss j rule: ld_scripts_loop.induct) (simp_all add: parts_ld_items_loop)

lemma parts_raw_html_step: "parts (raw_html_step doc j) = parts j"
  by (simp add: raw_html_step_def parts_update Let_def split: option.splits)

lemma parts_h1_step: "parts (h1_step doc j) = parts j"
  by (simp add: h1_step_def parts_def split: option.splits)

lemma parts_company_loop: "parts (company_loop ts j) = parts j"
  by (induction ts) (simp_all add: parts_def)

lemma parts_company_step: "parts (company_step doc j) = parts j"
  by (simp add: company_step_def parts_company_loop)

lemma parts_grid_step: "parts (grid_step L T lines i j) = parts j"
  by (simp add: grid_step_def parts_set_field del: set_field.simps split: option.splits)

lemma fold_keeps:
  "(\<And>x j. g (f x j) = g j) \<Longrightarrow> g (fold f xs j) = g j"
  by (induction xs arbitrary: j) simp_all

lemma parts_grid_scan: "parts (grid_scan L T lines j) = parts j"
  unfolding grid_scan_def by (rule fold_keeps) (rule parts_grid_step)

lemma parts_body_step: "parts (body_step L T lines i j) = parts j"
  by (simp add: body_step_def parts_set_field del: set_field.simps split: option.splits)

lemma parts_body_scan: "parts (body_scan L T doc j) = parts j"
  unfolding body_scan_def by (rule fold_keeps) (rule parts_body_step)

lemma parts_inline_deadline_step: "parts (inline_deadline_step doc j) = parts j"
  by (simp add: inline_deadline_step_def parts_def split: option.splits)

lemma parts_clean_h2_step: "parts_clean j \<Longrightarrow> parts_clean (h2_step L T h j)"
proof -
  assume j: "parts_clean j"
  define heading where "heading = py_lower L (strip (h_text h))"
  define content where "content = collect_section L h"
  define A1 where "A1 \<longleftrightarrow> contains (asc ''job description'') heading \<or> heading = asc ''description''"
  define A2 where "A2 \<longleftrightarrow> contains (asc ''skills'') heading \<or> contains (asc ''qualifications'') heading
                 \<or> contains (asc ''requirements'') heading"
  define A3 where "A3 \<longleftrightarrow> contains (asc ''responsibilities'') heading \<or> contains (asc ''duties'') heading"
  define A4 where "A4 \<longleftrightarrow> contains (asc ''how to apply'') heading \<or> contains (asc ''application'') heading"
  define A5 where "A5 \<longleftrightarrow> contains (asc ''job details'') heading"
  have eq: "h2_step L T h j =
     (if A1 then j\<lparr>description := content\<rparr>
      else if A2 then j\<lparr>qualifications := content\<rparr>
      else if A3 then j\<lparr>responsibilities := content\<rparr>
      else if A4 then j\<lparr>howToApply := content @ apply_link h\<rparr>
      else if A5 then parse_job_details_section L T h j
      else j)"
    unfolding h2_step_def Let_def heading_def content_def A1_def A2_def A3_def A4_def A5_def
    by (rule refl)
  have c: "is_clean content"
    by (simp add: content_def collect_section_def is_clean_clean_text)
  have g: "parts_clean (parse_job_details_section L T h j)"
    using j parts_clean_parts [OF parts_grid_scan]
    by (simp add: parse_job_details_section_def)
  from j c have 1: "parts_clean (j\<lparr>description := content\<rparr>)"
    and 2: "parts_clean (j\<lparr>qualifications := content\<rparr>)"
    and 3: "parts_clean (j\<lparr>responsibilities := content\<rparr>)"
    and 4: "parts_clean (j\<lparr>howToApply := content @ apply_link h\<rparr>)"
    by (simp_all add: parts_clean_def)
  show ?thesis unfolding eq using 1 2 3 4 g j by presburger
qed

lemma parts_clean_h2_loop: "parts_clean j \<Longrightarrow> parts_clean (h2_loop L T hs j)"
  unfolding h2_loop_def by (induction hs arbitrary: j) (simp_all add: parts_clean_h2_step)

lemma parts_clean_fallback_chain:
  assumes "parts_clean j"
  shows "parts_clean (fallback_chain L T doc j)"
proof -
  let ?j1 = "company_step doc (h1_step doc (raw_html_step doc j))"
  have "parts ?j1 = parts j"
    by (simp add: parts_company_step parts_h1_step parts_raw_html_step)
  from parts_clean_parts [OF this] assms have "parts_clean ?j1" by simp
  then have "parts_clean (h2_loop L T (h2s doc) ?j1)" by (rule parts_clean_h2_loop)
  moreover have "parts (fallback_chain L T doc j) = parts (h2_loop L T (h2s doc) ?j1)"
    by (simp add: fallback_chain_def parts_inline_deadline_step parts_body_scan)
  from parts_clean_parts [OF this]
  have "parts_clean (fallback_chain L T doc j) = parts_clean (h2_loop L T (h2s doc) ?j1)" .
  ultimately show ?thesis by simp
qed


lemma breaker_equals: "breaker 61"
  by (simp add: breaker_def asc_def ci_match_def is_space_def)

lemma match_lit_breaker:
  "\<forall>q \<in> set p. \<not> ci_match q c \<Longrightarrow>
   match_lit p (u @ c # b) = map_option (\<lambda>r. r @ c # b) (match_lit p u)"
  by (induction p u rule: match_lit.induct) auto

lemma match_placeholder_breaker:
  assumes "breaker c"
  shows "match_placeholder (u @ c # b) = map_option (\<lambda>r. r @ c # b) (match_placeholder u)"
proof -
  from assms have 1: "\<forall>q \<in> set (asc ''[email''). \<not> ci_match q c"
    and 2: "\<forall>q \<in> set (asc ''protected]''). \<not> ci_match q c" and 3: "\<not> is_space c"
    by (auto simp: breaker_def)
  show ?thesis
    by (cases "match_lit (asc ''[email'') u")
       (simp_all add: match_placeholder_def match_lit_breaker [OF 1] match_lit_breaker [OF 2]
          dropWhile_append3 [where P = is_space and y = c, OF 3])
qed

lemma has_placeholder_breaker:
  "breaker c \<Longrightarrow> has_placeholder (a @ c # b) = (has_placeholder a \<or> has_placeholder b)"
proof (induction a)
  case Nil
  from match_placeholder_breaker [OF Nil, of "[]" b] show ?case
    by (simp add: match_placeholder_def asc_def)
next
  case (Cons x a)
  from match_placeholder_breaker [OF Cons.prems, of "x # a" b] Cons show ?case
    by (cases "match_placeholder (x # a)") auto
qed

lemma has_placeholder_prefix: "has_placeholder a \<Longrightarrow> has_placeholder (a @ b)"
proof (induction a)
  case Nil
  then show ?case by simp
next
  case (Cons x a)
  show ?case
  proof (cases "match_placeholder (x # a)")
    case None
    with Cons show ?thesis by simp
  next
    case (Some r)
    from match_placeholder_split [OF Some] obtain m where "x # a = 91 # m @ r"
      "\<forall>r'. match_placeholder (91 # m @ r') = Some r'" by blast
    then have "match_placeholder ((x # a) @ b) = Some (r @ b)"
      by (metis append_Cons append_assoc)
    then show ?thesis by simp
  qed
qed

lemma has_placeholder_space_suffix:
  "list_all is_space w \<Longrightarrow> has_placeholder (a @ w) = has_placeholder a"
  using has_placeholder_words [of "a @ w"] has_placeholder_words [of a]
  by (simp add: wordsof_space_suffix)

lemma has_placeholder_strip: "has_placeholder (strip t) = has_placeholder t"
  using has_placeholder_words [of "strip t"] has_placeholder_words [of t]
  by (simp add: wordsof_strip)

lemma has_placeholder_marker:
  assumes "\<not> has_placeholder m"
  shows "has_placeholder (a @ [10, 10] @ (61 # m @ [61]) @ [10] @ b)
     = (has_placeholder a \<or> has_placeholder b)"
proof -
  have "a @ [10, 10] @ (61 # m @ [61]) @ [10] @ b = (a @ [10, 10]) @ 61 # (m @ 61 # (10 # b))"
    by simp
  then have "has_placeholder (a @ [10, 10] @ (61 # m @ [61]) @ [10] @ b)
     = (has_placeholder (a @ [10, 10]) \<or> has_placeholder m \<or> has_placeholder (10 # b))"
    by (simp only: has_placeholder_breaker [OF breaker_equals])
  also have "has_placeholder (a @ [10, 10]) = has_placeholder a"
    by (rule has_placeholder_space_suffix) (simp add: is_space_10)
  also have "has_placeholder (10 # b) = has_placeholder b"
    by (rule has_placeholder_space) (rule is_space_10)
  finally show ?thesis using assms by simp
qed

lemma marker_skills:
  "asc ''=== Skills & Qualifications ==='' = 61 # asc ''== Skills & Qualifications =='' @ [61]"
  "\<not> has_placeholder (asc ''== Skills & Qualifications =='')"
  "artifact_free (asc ''=== Skills & Qualifications ==='')"
  by (simp_all add: asc_def match_placeholder_def ci_match_def artifact_free_def)

lemma marker_responsibilities:
  "asc ''=== Responsibilities ==='' = 61 # asc ''== Responsibilities =='' @ [61]"
  "\<not> has_placeholder (asc ''== Responsibilities =='')"
  "artifact_free (asc ''=== Responsibilities ==='')"
  by (simp_all add: asc_def match_placeholder_def ci_match_def artifact_free_def)

lemma artifact_free_append: "artifact_free (a @ b) \<longleftrightarrow> artifact_free a \<and> artifact_free b"
  by (auto simp: artifact_free_def)

lemma artifact_free_nl: "artifact_free [10, 10]" "artifact_free [10]"
  by (simp_all add: artifact_free_def)

lemma is_clean_marker:
  assumes "is_clean a" "is_clean b" "\<not> has_placeholder m" "artifact_free (61 # m @ [61])"
  shows "is_clean (a @ [10, 10] @ (61 # m @ [61]) @ [10] @ b)"
  using assms has_placeholder_marker [OF assms(3), of a b]
  by (simp add: is_clean_def artifact_free_append artifact_free_nl del: append.simps)

lemma is_clean_full_desc:
  assumes "parts_clean j"
  shows "is_clean (full_desc j)"
proof -
  from assms have d: "is_clean (description j)" and q: "is_clean (qualifications j)"
    and r: "is_clean (responsibilities j)" by (simp_all add: parts_clean_def)
  let ?q = "[10, 10] @ asc ''=== Skills & Qualifications ==='' @ [10] @ qualifications j"
  let ?r = "[10, 10] @ asc ''=== Responsibilities ==='' @ [10] @ responsibilities j"
  have dq: "is_clean (description j @ ?q)"
    using is_clean_marker [OF d q marker_skills(2)] marker_skills(1,3) by simp
  have 1: "\<And>a. is_clean a \<Longrightarrow> is_clean (a @ ?r)"
    using is_clean_marker [OF _ r marker_responsibilities(2)] marker_responsibilities(1,3)
    by simp
  show ?thesis
  proof (cases "qualifications j = []")
    case True
    show ?thesis
    proof (cases "responsibilities j = []")
      case True
      with \<open>qualifications j = []\<close> d show ?thesis by (simp add: full_desc_def)
    next
      case False
      with True 1 [OF d] show ?thesis by (simp add: full_desc_def)
    qed
  next
    case False
    show ?thesis
    proof (cases "responsibilities j = []")
      case True
      with False dq show ?thesis by (simp add: full_desc_def)
    next
      case r: False
      with False 1 [OF dq] show ?thesis by (simp add: full_desc_def)
    qed
  qed
qed

lemma is_clean_take_strip: "is_clean t \<Longrightarrow> is_clean (take n (strip t))"
proof -
  assume t: "is_clean t"
  have "set (take n (strip t)) \<subseteq> set t"
    using set_take_subset [of n "strip t"] set_strip [of t] by blast
  with t have "artifact_free (take n (strip t))" by (auto simp: is_clean_def artifact_free_def)
  moreover have "\<not> has_placeholder (take n (strip t))"
  proof
    assume "has_placeholder (take n (strip t))"
    from has_placeholder_prefix [OF this, of "drop n (strip t)"] t show False
      by (simp add: has_placeholder_strip is_clean_def)
  qed
  ultimately show ?thesis by (simp add: is_clean_def)
qed

lemma description_assemble:
  "description (assemble L j) = clean_text (clean_text (take 3000 (strip (full_desc j))))"
  by (simp add: assemble_def Let_def)

lemma description_bound:
  assumes "parts_clean j"
  shows "length (description (assemble L j)) \<le> 3000"
proof -
  let ?t = "take 3000 (strip (full_desc j))"
  have t: "is_clean ?t" by (rule is_clean_take_strip) (rule is_clean_full_desc [OF assms])
  have "length (clean_text (clean_text ?t)) \<le> length (clean_text ?t)"
    by (rule length_clean_text_clean) (rule is_clean_clean_text)
  also have "\<dots> \<le> length ?t" by (rule length_clean_text_clean) (rule t)
  also have "\<dots> \<le> 3000" by simp
  finally show ?thesis by (simp add: description_assemble)
qed

text \<open>
  Claim C3. For every page on which \<open>scrape_job_page\<close> returns a record, the description
  of the record has at most 3000 characters. The three fields that the assembly joins are
  results of \<open>clean_text\<close>, or empty, so they hold no placeholder and none of the three
  replaced characters, and the markers between them add none; on the joined text, cut at
  3000 characters, neither of the two passes of \<open>clean_text\<close> can add a character.
\<close>

theorem description_capped:
  "scrape_job_page L T doc = Inr j \<Longrightarrow> length (description j) \<le> 3000"
proof -
  assume "scrape_job_page L T doc = Inr j"
  then obtain j0 where j0: "ld_scripts_loop L T (ld_scripts doc) (new_job L T (doc_url doc)) = Inr j0"
    and j: "j = assemble L (fallback_chain L T doc j0)"
    by (auto simp: scrape_job_page_def split: sum.splits)
  from parts_clean_parts [OF parts_ld_scripts_loop [OF j0]] parts_new_job
  have "parts_clean j0" by simp
  then have "parts_clean (fallback_chain L T doc j0)" by (rule parts_clean_fallback_chain)
  from description_bound [OF this] j show ?thesis by simp
qed

theorem description_capped_witness:
  "\<not> isl (scrape_job_page id id
      (page (posting (asc ''Program Officer'') (asc ''Full-time'')) None
         [text_section (asc ''Job Description'') (replicate 40 97)] []))
   \<and> length (description (projr (scrape_job_page id id
      (page (posting (asc ''Program Officer'') (asc ''Full-time'')) None
         [text_section (asc ''Job Description'') (replicate 40 97)] [])))) \<le> 3000"
proof -
  let ?doc = "page (posting (asc ''Program Officer'') (asc ''Full-time'')) None
         [text_section (asc ''Job Description'') (replicate 40 97)] []"
  have b: "\<not> isl (scrape_job_page id id ?doc)" by code_simp
  then have "scrape_job_page id id ?doc = Inr (projr (scrape_job_page id id ?doc))"
    by (cases "scrape_job_page id id ?doc") simp_all
  from description_capped [OF this] b show ?thesis by blast
qed

end
